theory Spec2Isabelle
  imports Main "HOL-Library.Word"
begin

unbundle bit_operations_syntax

section \<open>The page release engine of the Scudo allocator (release.h)\<close>

text \<open>
  The header works on \<open>uptr\<close>, the unsigned machine word of the target. The model
  fixes the 64-bit target (\<open>SCUDO_WORDSIZE = 64\<close>): \<open>+\<close>, \<open>-\<close> and \<open>*\<close> wrap around,
  \<open>div\<close> and \<open>mod\<close> are the unsigned ones, \<open>push_bit\<close> is \<open><<\<close> and \<open>drop_bit\<close> is
  \<open>>>\<close>.
\<close>

type_synonym uptr = "64 word"

subsection \<open>Helpers of common.h\<close>

text \<open>
  Modelled from the spec: common.h is not among the sources, so \<open>Min\<close>, \<open>roundUp\<close>,
  \<open>roundDown\<close>, \<open>roundUpSlow\<close>, \<open>roundDownSlow\<close>, \<open>isPowerOfTwo\<close>,
  \<open>getMostSignificantSetBitIndex\<close>, \<open>roundUpPowerOfTwo\<close> and \<open>getLog2\<close> follow the
  spec's words: \<open>roundUp(X, B)\<close> is the least multiple of \<open>B\<close> that is not below \<open>X\<close>
  (the spec writes \<open>roundUp(ReleaseSize, PageSize) / PageSize\<close> as the ceiling of
  \<open>ReleaseSize / PageSize\<close>), \<open>roundDown\<close> the greatest multiple not above,
  the counter width is \<open>nextPowerOfTwo\<close> of the bit length of \<open>MaxValue\<close>, and
  \<open>getLog2\<close> is the base-2 logarithm of a power of two.
\<close>

definition MinU :: "uptr \<Rightarrow> uptr \<Rightarrow> uptr" where
  "MinU A B = (if A < B then A else B)"

definition roundUp :: "uptr \<Rightarrow> uptr \<Rightarrow> uptr" where
  "roundUp X Boundary = ((X + Boundary - 1) div Boundary) * Boundary"

definition roundDown :: "uptr \<Rightarrow> uptr \<Rightarrow> uptr" where
  "roundDown X Boundary = (X div Boundary) * Boundary"

definition roundUpSlow :: "uptr \<Rightarrow> uptr \<Rightarrow> uptr" where
  "roundUpSlow X Boundary = ((X + Boundary - 1) div Boundary) * Boundary"

definition roundDownSlow :: "uptr \<Rightarrow> uptr \<Rightarrow> uptr" where
  "roundDownSlow X Boundary = (X div Boundary) * Boundary"

fun bit_length :: "nat \<Rightarrow> nat" where
  "bit_length n = (if n = 0 then 0 else Suc (bit_length (n div 2)))"

declare bit_length.simps [simp del]

definition isPowerOfTwo :: "uptr \<Rightarrow> bool" where
  "isPowerOfTwo X = (X AND (X - 1) = 0)"

definition getMostSignificantSetBitIndex :: "uptr \<Rightarrow> uptr" where
  "getMostSignificantSetBitIndex X = of_nat (bit_length (unat X) - 1)"

definition roundUpPowerOfTwo :: "uptr \<Rightarrow> uptr" where
  "roundUpPowerOfTwo Size =
     (if isPowerOfTwo Size then Size
      else push_bit (unat (getMostSignificantSetBitIndex Size + 1)) 1)"

definition getLog2 :: "uptr \<Rightarrow> uptr" where
  "getLog2 X = of_nat (bit_length (unat X) - 1)"

subsection \<open>The platform\<close>

text \<open>
  What the header takes from the platform, as parameters of the model: the cached page
  size, whether \<open>Mutex.tryLock()\<close> on the static buffer succeeds, and whether \<open>map\<close> of
  a given size (called with \<open>MAP_ALLOWNOMEM\<close>) returns memory or null.
\<close>

record Platform =
  PageSizeCached :: uptr
  tryLock :: bool
  mapSucceeds :: "uptr \<Rightarrow> bool"

subsection \<open>ReleaseRecorder\<close>

text \<open>
  \<open>OSReleased\<close> is the trace of the platform calls \<open>releasePagesToOS(Base, From, Size,
  Data)\<close>, oldest first, as \<open>(Base, From, Size)\<close>.
\<close>

record ReleaseRecorder =
  ReleasedRangesCount :: uptr
  ReleasedBytes :: uptr
  Base :: uptr
  OSReleased :: "(uptr \<times> uptr \<times> uptr) list"

definition ReleaseRecorder_new :: "uptr \<Rightarrow> ReleaseRecorder" where
  "ReleaseRecorder_new B =
     \<lparr>ReleasedRangesCount = 0, ReleasedBytes = 0, Base = B, OSReleased = []\<rparr>"

definition getReleasedRangesCount :: "ReleaseRecorder \<Rightarrow> uptr" where
  "getReleasedRangesCount r = ReleasedRangesCount r"

definition getReleasedBytes :: "ReleaseRecorder \<Rightarrow> uptr" where
  "getReleasedBytes r = ReleasedBytes r"

definition getBase :: "ReleaseRecorder \<Rightarrow> uptr" where
  "getBase r = Base r"

definition releasePageRangeToOS :: "uptr \<Rightarrow> uptr \<Rightarrow> ReleaseRecorder \<Rightarrow> ReleaseRecorder" where
  "releasePageRangeToOS From To r =
     (let Size = To - From in
      r\<lparr>OSReleased := OSReleased r @ [(Base r, From, Size)],
        ReleasedRangesCount := ReleasedRangesCount r + 1,
        ReleasedBytes := ReleasedBytes r + Size\<rparr>)"

text \<open>The ranges \<open>[From, To)\<close> of the calls made so far, oldest first.\<close>

definition releasedRanges :: "ReleaseRecorder \<Rightarrow> (uptr \<times> uptr) list" where
  "releasedRanges r = map (\<lambda>(B, From, Size). (From, From + Size)) (OSReleased r)"

fun releaseAll :: "(uptr \<times> uptr) list \<Rightarrow> ReleaseRecorder \<Rightarrow> ReleaseRecorder" where
  "releaseAll [] r = r"
| "releaseAll ((From, To) # cs) r = releaseAll cs (releasePageRangeToOS From To r)"

subsection \<open>RegionPageMap\<close>

text \<open>
  \<open>Buffer\<close> is the pointer (null, the static buffer, or memory from \<open>map\<close>) and \<open>Words\<close>
  the array of \<open>uptr\<close> it points to, by element index. The accessors check nothing, as in
  the source; with a null \<open>Buffer\<close> they have no defined behaviour there, and the model's
  accessors are meant for an allocated map.
\<close>

datatype buffer_ptr = nullptr | StaticBuffer | MappedBuffer

record RegionPageMap =
  Regions :: uptr
  NumCounters :: uptr
  CounterSizeBitsLog :: uptr
  CounterMask :: uptr
  PackingRatioLog :: uptr
  BitOffsetMask :: uptr
  SizePerRegion :: uptr
  BufferSize :: uptr
  Buffer :: buffer_ptr
  Words :: "uptr \<Rightarrow> uptr"

definition StaticBufferCount :: uptr where
  "StaticBufferCount = 2048"

definition RegionPageMap_new :: RegionPageMap where
  "RegionPageMap_new =
     \<lparr>Regions = 0, NumCounters = 0, CounterSizeBitsLog = 0, CounterMask = 0,
      PackingRatioLog = 0, BitOffsetMask = 0, SizePerRegion = 0, BufferSize = 0,
      Buffer = nullptr, Words = (\<lambda>_. 0)\<rparr>"

text \<open>
  \<open>reset\<close> returns the map and the sizes it asked \<open>map\<close> for (none on the static path).
  \<open>sizeof(*Buffer)\<close> is 8 and \<open>MaxCounterBits\<close> is 64.
\<close>

definition reset :: "Platform \<Rightarrow> uptr \<Rightarrow> uptr \<Rightarrow> uptr \<Rightarrow> RegionPageMap \<Rightarrow> RegionPageMap \<times> uptr list" where
  "reset pf NumberOfRegion CountersPerRegion MaxValue m =
     (let MaxCounterBits = (64 :: uptr);
          CounterSizeBits = roundUpPowerOfTwo (getMostSignificantSetBitIndex MaxValue + 1);
          CSBLog = getLog2 CounterSizeBits;
          CMask = drop_bit (unat (MaxCounterBits - CounterSizeBits)) (NOT 0);
          PackingRatio = drop_bit (unat CSBLog) MaxCounterBits;
          PRLog = getLog2 PackingRatio;
          SPR = drop_bit (unat PRLog)
                  (roundUp CountersPerRegion (push_bit (unat PRLog) 1));
          BSize = SPR * 8 * NumberOfRegion;
          m1 = m\<lparr>Regions := NumberOfRegion, NumCounters := CountersPerRegion,
                 CounterSizeBitsLog := CSBLog, CounterMask := CMask,
                 PackingRatioLog := PRLog, BitOffsetMask := PackingRatio - 1,
                 SizePerRegion := SPR, BufferSize := BSize\<rparr>
      in if BSize \<le> StaticBufferCount * 8 \<and> tryLock pf
         then (m1\<lparr>Buffer := StaticBuffer, Words := (\<lambda>_. 0)\<rparr>, [])
         else let Size = roundUp BSize (PageSizeCached pf)
              in if mapSucceeds pf Size
                 then (m1\<lparr>Buffer := MappedBuffer, Words := (\<lambda>_. 0)\<rparr>, [Size])
                 else (m1\<lparr>Buffer := nullptr\<rparr>, [Size]))"

definition isAllocated :: "RegionPageMap \<Rightarrow> bool" where
  "isAllocated m = (Buffer m \<noteq> nullptr)"

definition getCount :: "RegionPageMap \<Rightarrow> uptr" where
  "getCount m = NumCounters m"

definition getBufferSize :: "RegionPageMap \<Rightarrow> uptr" where
  "getBufferSize m = BufferSize m"

text \<open>The word a counter lives in and the bit it starts at.\<close>

definition wordIndex :: "RegionPageMap \<Rightarrow> uptr \<Rightarrow> uptr \<Rightarrow> uptr" where
  "wordIndex m Region I = Region * SizePerRegion m + drop_bit (unat (PackingRatioLog m)) I"

definition bitOffset :: "RegionPageMap \<Rightarrow> uptr \<Rightarrow> uptr" where
  "bitOffset m I = push_bit (unat (CounterSizeBitsLog m)) (I AND BitOffsetMask m)"

definition get :: "RegionPageMap \<Rightarrow> uptr \<Rightarrow> uptr \<Rightarrow> uptr" where
  "get m Region I =
     drop_bit (unat (bitOffset m I)) (Words m (wordIndex m Region I)) AND CounterMask m"

definition isAllCounted :: "RegionPageMap \<Rightarrow> uptr \<Rightarrow> uptr \<Rightarrow> bool" where
  "isAllCounted m Region I = (get m Region I = CounterMask m)"

definition incCounter :: "RegionPageMap \<Rightarrow> uptr \<Rightarrow> uptr \<Rightarrow> RegionPageMap" where
  "incCounter m Region I =
     m\<lparr>Words := (Words m)(wordIndex m Region I :=
          Words m (wordIndex m Region I) + push_bit (unat (bitOffset m I)) 1)\<rparr>"

definition incN :: "RegionPageMap \<Rightarrow> uptr \<Rightarrow> uptr \<Rightarrow> uptr \<Rightarrow> RegionPageMap" where
  "incN m Region I N =
     m\<lparr>Words := (Words m)(wordIndex m Region I :=
          Words m (wordIndex m Region I) + push_bit (unat (bitOffset m I)) N)\<rparr>"

definition setAsAllCounted :: "RegionPageMap \<Rightarrow> uptr \<Rightarrow> uptr \<Rightarrow> RegionPageMap" where
  "setAsAllCounted m Region I =
     m\<lparr>Words := (Words m)(wordIndex m Region I :=
          Words m (wordIndex m Region I) OR push_bit (unat (bitOffset m I)) (CounterMask m))\<rparr>"

lemma uptr_suc: "(I :: uptr) < Top \<Longrightarrow> unat (I + 1) = Suc (unat I)"
proof -
  assume a: "I < Top"
  have "unat I < unat Top" using a by (simp add: word_less_nat_alt)
  moreover have "unat Top < 2 ^ 64" using unsigned_less [of Top, where 'a=nat] by simp
  ultimately have "unat I + 1 < 2 ^ 64" by linarith
  then show ?thesis by (simp add: unat_word_ariths)
qed

lemma uptr_loop_measure: "(I :: uptr) < Top \<Longrightarrow> unat Top - unat (I + 1) < unat Top - unat I"
  by (simp add: uptr_suc word_less_nat_alt)

function incRange_loop :: "RegionPageMap \<Rightarrow> uptr \<Rightarrow> uptr \<Rightarrow> uptr \<Rightarrow> RegionPageMap" where
  "incRange_loop m Region I Top =
     (if I < Top then incRange_loop (incCounter m Region I) Region (I + 1) Top else m)"
  by pat_completeness auto
termination
  by (relation "measure (\<lambda>(m, Region, I, Top). unat Top - unat I)")
     (auto simp: uptr_loop_measure)

declare incRange_loop.simps [simp del]

definition incRange :: "RegionPageMap \<Rightarrow> uptr \<Rightarrow> uptr \<Rightarrow> uptr \<Rightarrow> RegionPageMap" where
  "incRange m Region From To = incRange_loop m Region From (MinU (To + 1) (NumCounters m))"

function setAsAllCountedRange_loop :: "RegionPageMap \<Rightarrow> uptr \<Rightarrow> uptr \<Rightarrow> uptr \<Rightarrow> RegionPageMap" where
  "setAsAllCountedRange_loop m Region I Top =
     (if I < Top then setAsAllCountedRange_loop (setAsAllCounted m Region I) Region (I + 1) Top
      else m)"
  by pat_completeness auto
termination
  by (relation "measure (\<lambda>(m, Region, I, Top). unat Top - unat I)")
     (auto simp: uptr_loop_measure)

declare setAsAllCountedRange_loop.simps [simp del]

definition setAsAllCountedRange :: "RegionPageMap \<Rightarrow> uptr \<Rightarrow> uptr \<Rightarrow> uptr \<Rightarrow> RegionPageMap" where
  "setAsAllCountedRange m Region From To =
     setAsAllCountedRange_loop m Region From (MinU (To + 1) (NumCounters m))"

definition updateAsAllCountedIf :: "RegionPageMap \<Rightarrow> uptr \<Rightarrow> uptr \<Rightarrow> uptr \<Rightarrow> bool \<times> RegionPageMap" where
  "updateAsAllCountedIf m Region I MaxCount =
     (let Count = get m Region I in
      if Count = CounterMask m then (True, m)
      else if Count = MaxCount then (True, setAsAllCounted m Region I)
      else (False, m))"

subsection \<open>FreePagesRangeTracker\<close>

text \<open>
  The tracker holds a reference to the recorder; the model keeps the recorder in the
  tracker's state and hands it back at the end. \<open>TPageSizeLog\<close> is the tracker's
  \<open>PageSizeLog\<close> (the context has a field of the same name).
\<close>

record FreePagesRangeTracker =
  Recorder :: ReleaseRecorder
  TPageSizeLog :: uptr
  InRange :: bool
  CurrentPage :: uptr
  CurrentRangeStatePage :: uptr

definition FreePagesRangeTracker_new :: "Platform \<Rightarrow> ReleaseRecorder \<Rightarrow> FreePagesRangeTracker" where
  "FreePagesRangeTracker_new pf r =
     \<lparr>Recorder = r, TPageSizeLog = getLog2 (PageSizeCached pf), InRange = False,
      CurrentPage = 0, CurrentRangeStatePage = 0\<rparr>"

definition closeOpenedRange :: "FreePagesRangeTracker \<Rightarrow> FreePagesRangeTracker" where
  "closeOpenedRange t =
     (if InRange t
      then t\<lparr>Recorder := releasePageRangeToOS
                 (push_bit (unat (TPageSizeLog t)) (CurrentRangeStatePage t))
                 (push_bit (unat (TPageSizeLog t)) (CurrentPage t)) (Recorder t),
             InRange := False\<rparr>
      else t)"

definition processNextPage :: "bool \<Rightarrow> FreePagesRangeTracker \<Rightarrow> FreePagesRangeTracker" where
  "processNextPage Released t =
     (let t1 = (if Released
                then (if \<not> InRange t
                      then t\<lparr>CurrentRangeStatePage := CurrentPage t, InRange := True\<rparr>
                      else t)
                else closeOpenedRange t)
      in t1\<lparr>CurrentPage := CurrentPage t1 + 1\<rparr>)"

definition skipPages :: "uptr \<Rightarrow> FreePagesRangeTracker \<Rightarrow> FreePagesRangeTracker" where
  "skipPages N t = (let t1 = closeOpenedRange t in t1\<lparr>CurrentPage := CurrentPage t1 + N\<rparr>)"

definition finish :: "FreePagesRangeTracker \<Rightarrow> FreePagesRangeTracker" where
  "finish t = closeOpenedRange t"

text \<open>A call of the tracker, and a sequence of calls run in order.\<close>

datatype tracker_call = ProcessNextPage bool | SkipPages uptr | Finish

fun tracker_step :: "tracker_call \<Rightarrow> FreePagesRangeTracker \<Rightarrow> FreePagesRangeTracker" where
  "tracker_step (ProcessNextPage b) t = processNextPage b t"
| "tracker_step (SkipPages N) t = skipPages N t"
| "tracker_step Finish t = finish t"

fun tracker_run :: "tracker_call list \<Rightarrow> FreePagesRangeTracker \<Rightarrow> FreePagesRangeTracker" where
  "tracker_run [] t = t"
| "tracker_run (c # cs) t = tracker_run cs (tracker_step c t)"

subsection \<open>PageReleaseContext\<close>

record PageReleaseContext =
  BlockSize :: uptr
  RegionSize :: uptr
  NumberOfRegions :: uptr
  ReleasePageOffset :: uptr
  PageSize :: uptr
  PagesCount :: uptr
  PageSizeLog :: uptr
  RoundedRegionSize :: uptr
  RoundedSize :: uptr
  FullPagesBlockCountMax :: uptr
  SameBlockCountPerPage :: bool
  PageMap :: RegionPageMap

text \<open>
  The constructor \<open>PageReleaseContext(BlockSize, RegionSize, NumberOfRegions,
  ReleaseSize, ReleaseOffset)\<close>, the arguments in the source's order. The two
  \<open>DCHECK_EQ\<close> for \<open>NumberOfRegions != 1\<close> are debug checks and change nothing.
\<close>

definition PageReleaseContext_new ::
  "Platform \<Rightarrow> uptr \<Rightarrow> uptr \<Rightarrow> uptr \<Rightarrow> uptr \<Rightarrow> uptr \<Rightarrow> PageReleaseContext" where
  "PageReleaseContext_new pf BlockSize0 RegionSize0 NumberOfRegions0 ReleaseSize ReleaseOffset =
     (let PgSize = PageSizeCached pf;
          (FullMax, Same) =
            (if BlockSize0 \<le> PgSize then
               (if PgSize mod BlockSize0 = 0 then (PgSize div BlockSize0, True)
                else if BlockSize0 mod (PgSize mod BlockSize0) = 0
                     then (PgSize div BlockSize0 + 1, True)
                     else (PgSize div BlockSize0 + 2, False))
             else
               (if BlockSize0 mod PgSize = 0 then (1, True) else (2, False)));
          PgSizeLog = getLog2 PgSize;
          Rounded = roundUp RegionSize0 PgSize
      in \<lparr>BlockSize = BlockSize0, RegionSize = RegionSize0,
          NumberOfRegions = NumberOfRegions0,
          ReleasePageOffset = drop_bit (unat PgSizeLog) ReleaseOffset,
          PageSize = PgSize,
          PagesCount = roundUp ReleaseSize PgSize div PgSize,
          PageSizeLog = PgSizeLog,
          RoundedRegionSize = Rounded,
          RoundedSize = NumberOfRegions0 * Rounded,
          FullPagesBlockCountMax = FullMax,
          SameBlockCountPerPage = Same,
          PageMap = RegionPageMap_new\<rparr>)"

definition hasBlockMarked :: "PageReleaseContext \<Rightarrow> bool" where
  "hasBlockMarked C = isAllocated (PageMap C)"

definition ensurePageMapAllocated :: "Platform \<Rightarrow> PageReleaseContext \<Rightarrow> PageReleaseContext" where
  "ensurePageMapAllocated pf C =
     (if isAllocated (PageMap C) then C
      else C\<lparr>PageMap := fst (reset pf (NumberOfRegions C) (PagesCount C)
                                 (FullPagesBlockCountMax C) (PageMap C))\<rparr>)"

definition getPageIndex :: "PageReleaseContext \<Rightarrow> uptr \<Rightarrow> uptr" where
  "getPageIndex C P = drop_bit (unat (PageSizeLog C)) P - ReleasePageOffset C"

subsection \<open>markFreeBlocks\<close>

text \<open>
  The \<open>while\<close> loop of the lambda \<open>markLastBlock\<close> ends only when \<open>PInRegion\<close>
  reaches \<open>RoundedRegionSize\<close>; with wrap-around it need not, so it is a partial
  function and \<open>None\<close> stands for a loop that never ends.
\<close>

partial_function (option) markLastBlock_loop ::
  "PageReleaseContext \<Rightarrow> uptr \<Rightarrow> uptr \<Rightarrow> PageReleaseContext option" where
  "markLastBlock_loop C RegionIndex PInRegion =
     (if PInRegion < RoundedRegionSize C
      then markLastBlock_loop
             (C\<lparr>PageMap := incRange (PageMap C) RegionIndex (getPageIndex C PInRegion)
                                  (getPageIndex C (PInRegion + BlockSize C - 1))\<rparr>)
             RegionIndex (PInRegion + BlockSize C)
      else Some C)"

declare markLastBlock_loop.simps [code]

definition markLastBlock :: "uptr \<Rightarrow> uptr \<Rightarrow> PageReleaseContext \<Rightarrow> PageReleaseContext option" where
  "markLastBlock LastBlockInRegion RegionIndex C =
     markLastBlock_loop C RegionIndex (LastBlockInRegion + BlockSize C)"

text \<open>
  The body of the inner \<open>for\<close> loop for one entry, \<open>P\<close> being
  \<open>DecompactPtr(It.get(I)) - Base\<close>: first as in the branch where each chunk affects one
  page, then as in the other branch.
\<close>

definition markOnePage :: "uptr \<Rightarrow> uptr \<Rightarrow> PageReleaseContext \<Rightarrow> PageReleaseContext option" where
  "markOnePage LastBlockInRegion P C =
     (if P \<ge> RoundedSize C then Some C
      else let RegionIndex = (if NumberOfRegions C = 1 then 0 else P div RegionSize C);
               PInRegion = P - RegionIndex * RegionSize C;
               C1 = C\<lparr>PageMap := incCounter (PageMap C) RegionIndex (getPageIndex C PInRegion)\<rparr>
           in if PInRegion = LastBlockInRegion
              then markLastBlock LastBlockInRegion RegionIndex C1
              else Some C1)"

definition markManyPages :: "uptr \<Rightarrow> uptr \<Rightarrow> PageReleaseContext \<Rightarrow> PageReleaseContext option" where
  "markManyPages LastBlockInRegion P C =
     (if P \<ge> RoundedSize C then Some C
      else let RegionIndex = (if NumberOfRegions C = 1 then 0 else P div RegionSize C);
               PInRegion = P - RegionIndex * RegionSize C;
               C1 = C\<lparr>PageMap := incRange (PageMap C) RegionIndex (getPageIndex C PInRegion)
                                        (getPageIndex C (PInRegion + BlockSize C - 1))\<rparr>
           in if PInRegion = LastBlockInRegion
              then markLastBlock LastBlockInRegion RegionIndex C1
              else Some C1)"

fun forEach :: "('a \<Rightarrow> 's \<Rightarrow> 's option) \<Rightarrow> 'a list \<Rightarrow> 's \<Rightarrow> 's option" where
  "forEach f [] s = Some s"
| "forEach f (x # xs) s = (case f x s of None \<Rightarrow> None | Some s1 \<Rightarrow> forEach f xs s1)"

text \<open>
  The free list is a list of batches, a batch the list of its compacted handles
  \<open>get(0), ..., get(getCount() - 1)\<close>.
\<close>

definition markFreeBlocks ::
  "Platform \<Rightarrow> 'h list list \<Rightarrow> ('h \<Rightarrow> uptr) \<Rightarrow> uptr \<Rightarrow> PageReleaseContext \<Rightarrow> PageReleaseContext option" where
  "markFreeBlocks pf FreeList DecompactPtr Base0 C =
     (let C0 = ensurePageMapAllocated pf C;
          LastBlockInRegion = (RegionSize C0 div BlockSize C0 - 1) * BlockSize C0
      in if BlockSize C0 \<le> PageSize C0 \<and> PageSize C0 mod BlockSize C0 = 0
         then forEach (\<lambda>It. forEach (\<lambda>h. markOnePage LastBlockInRegion (DecompactPtr h - Base0)) It)
                FreeList C0
         else forEach (\<lambda>It. forEach (\<lambda>h. markManyPages LastBlockInRegion (DecompactPtr h - Base0)) It)
                FreeList C0)"

subsection \<open>The release scan\<close>

text \<open>The inner \<open>for\<close> loop over the pages of region \<open>I\<close>, fast path.\<close>

function scanPagesSame ::
  "uptr \<Rightarrow> uptr \<Rightarrow> uptr \<Rightarrow> uptr \<Rightarrow> RegionPageMap \<times> FreePagesRangeTracker
     \<Rightarrow> RegionPageMap \<times> FreePagesRangeTracker" where
  "scanPagesSame I PagesCount0 FullMax J (pm, t) =
     (if J < PagesCount0
      then let (CanRelease, pm1) = updateAsAllCountedIf pm I J FullMax
           in scanPagesSame I PagesCount0 FullMax (J + 1) (pm1, processNextPage CanRelease t)
      else (pm, t))"
  by pat_completeness auto
termination
  by (relation "measure (\<lambda>(I, PagesCount0, FullMax, J, s). unat PagesCount0 - unat J)")
     (auto simp: uptr_loop_measure)

declare scanPagesSame.simps [simp del]

function scanRegionsSame ::
  "(uptr \<Rightarrow> bool) \<Rightarrow> uptr \<Rightarrow> uptr \<Rightarrow> uptr \<Rightarrow> uptr \<Rightarrow> RegionPageMap \<times> FreePagesRangeTracker
     \<Rightarrow> RegionPageMap \<times> FreePagesRangeTracker" where
  "scanRegionsSame SkipRegion NumberOfRegions0 PagesCount0 FullMax I (pm, t) =
     (if I < NumberOfRegions0
      then (if SkipRegion I
            then scanRegionsSame SkipRegion NumberOfRegions0 PagesCount0 FullMax (I + 1)
                   (pm, skipPages PagesCount0 t)
            else scanRegionsSame SkipRegion NumberOfRegions0 PagesCount0 FullMax (I + 1)
                   (scanPagesSame I PagesCount0 FullMax 0 (pm, t)))
      else (pm, t))"
  by pat_completeness auto
termination
  by (relation "measure (\<lambda>(SkipRegion, NumberOfRegions0, PagesCount0, FullMax, I, s).
                          unat NumberOfRegions0 - unat I)")
     (auto simp: uptr_loop_measure)

declare scanRegionsSame.simps [simp del]

text \<open>
  The slow path. \<open>slowPageStep\<close> is the body of the inner loop up to the new
  \<open>PrevPageBoundary\<close>: it returns \<open>(BlocksPerPage, PrevPageBoundary, CurrentBoundary)\<close>.
\<close>

definition slowPageStep :: "uptr \<Rightarrow> uptr \<Rightarrow> uptr \<Rightarrow> uptr \<Rightarrow> uptr \<Rightarrow> uptr \<Rightarrow> uptr \<times> uptr \<times> uptr" where
  "slowPageStep PgSize BlkSize Pn Pnc PrevPageBoundary CurrentBoundary =
     (let PageBoundary = PrevPageBoundary + PgSize in
      if CurrentBoundary < PageBoundary
      then let B1 = (if CurrentBoundary > PrevPageBoundary then Pn + 1 else Pn);
               Cur1 = CurrentBoundary + Pnc
           in if Cur1 < PageBoundary
              then (B1 + 1, PageBoundary, Cur1 + BlkSize)
              else (B1, PageBoundary, Cur1)
      else (Pn, PageBoundary, CurrentBoundary))"

function scanPagesSlow ::
  "uptr \<Rightarrow> uptr \<Rightarrow> uptr \<Rightarrow> uptr \<Rightarrow> uptr \<Rightarrow> uptr \<Rightarrow> uptr
     \<Rightarrow> uptr \<times> uptr \<times> RegionPageMap \<times> FreePagesRangeTracker
     \<Rightarrow> RegionPageMap \<times> FreePagesRangeTracker" where
  "scanPagesSlow I PagesCount0 PgSize BlkSize Pn Pnc J (PrevPageBoundary, CurrentBoundary, pm, t) =
     (if J < PagesCount0
      then let (BlocksPerPage, Prev1, Cur1) =
                 slowPageStep PgSize BlkSize Pn Pnc PrevPageBoundary CurrentBoundary;
               (CanRelease, pm1) = updateAsAllCountedIf pm I J BlocksPerPage
           in scanPagesSlow I PagesCount0 PgSize BlkSize Pn Pnc (J + 1)
                (Prev1, Cur1, pm1, processNextPage CanRelease t)
      else (pm, t))"
  by pat_completeness auto
termination
  by (relation "measure (\<lambda>(I, PagesCount0, PgSize, BlkSize, Pn, Pnc, J, s).
                          unat PagesCount0 - unat J)")
     (auto simp: uptr_loop_measure)

declare scanPagesSlow.simps [simp del]

function scanRegionsSlow ::
  "(uptr \<Rightarrow> bool) \<Rightarrow> PageReleaseContext \<Rightarrow> uptr \<Rightarrow> uptr \<Rightarrow> uptr
     \<Rightarrow> RegionPageMap \<times> FreePagesRangeTracker \<Rightarrow> RegionPageMap \<times> FreePagesRangeTracker" where
  "scanRegionsSlow SkipRegion C Pn Pnc I (pm, t) =
     (if I < NumberOfRegions C
      then (if SkipRegion I
            then scanRegionsSlow SkipRegion C Pn Pnc (I + 1) (pm, skipPages (PagesCount C) t)
            else let (PrevPageBoundary, CurrentBoundary) =
                       (if ReleasePageOffset C > 0
                        then (ReleasePageOffset C * PageSize C,
                              roundUpSlow (ReleasePageOffset C * PageSize C) (BlockSize C))
                        else (0, 0))
                 in scanRegionsSlow SkipRegion C Pn Pnc (I + 1)
                      (scanPagesSlow I (PagesCount C) (PageSize C) (BlockSize C) Pn Pnc 0
                         (PrevPageBoundary, CurrentBoundary, pm, t)))
      else (pm, t))"
  by pat_completeness auto
termination
  by (relation "measure (\<lambda>(SkipRegion, C, Pn, Pnc, I, s). unat (NumberOfRegions C) - unat I)")
     (auto simp: uptr_loop_measure)

declare scanRegionsSlow.simps [simp del]

text \<open>
  \<open>releaseFreeMemoryToOS(Context, Recorder, SkipRegion)\<close>: it returns the context (its
  page map updated) and the recorder.
\<close>

definition releaseFreeMemoryToOS ::
  "Platform \<Rightarrow> PageReleaseContext \<Rightarrow> ReleaseRecorder \<Rightarrow> (uptr \<Rightarrow> bool)
     \<Rightarrow> PageReleaseContext \<times> ReleaseRecorder" where
  "releaseFreeMemoryToOS pf C Rec SkipRegion =
     (let RangeTracker = FreePagesRangeTracker_new pf Rec;
          (pm, t) =
            (if SameBlockCountPerPage C
             then scanRegionsSame SkipRegion (NumberOfRegions C) (PagesCount C)
                    (FullPagesBlockCountMax C) 0 (PageMap C, RangeTracker)
             else let Pn = (if BlockSize C < PageSize C then PageSize C div BlockSize C else 1);
                      Pnc = Pn * BlockSize C
                  in scanRegionsSlow SkipRegion C Pn Pnc 0 (PageMap C, RangeTracker))
      in (C\<lparr>PageMap := pm\<rparr>, Recorder (finish t)))"

text \<open>
  The overload that takes the free list. Its constructor call is
  \<open>Context(BlockSize, /*ReleaseSize=*/RegionSize, RegionSize, NumberOfRegions)\<close>: the
  arguments are passed in this order to the parameters \<open>(BlockSize, RegionSize,
  NumberOfRegions, ReleaseSize)\<close>, \<open>ReleaseOffset\<close> taking its default 0.
\<close>

definition releaseFreeMemoryToOS_FreeList ::
  "Platform \<Rightarrow> 'h list list \<Rightarrow> uptr \<Rightarrow> uptr \<Rightarrow> uptr \<Rightarrow> ReleaseRecorder \<Rightarrow> ('h \<Rightarrow> uptr)
     \<Rightarrow> (uptr \<Rightarrow> bool) \<Rightarrow> (PageReleaseContext \<times> ReleaseRecorder) option" where
  "releaseFreeMemoryToOS_FreeList pf FreeList RegionSize0 NumberOfRegions0 BlockSize0 Rec
       DecompactPtr SkipRegion =
     (let Context = PageReleaseContext_new pf BlockSize0 RegionSize0 RegionSize0 NumberOfRegions0 0
      in case markFreeBlocks pf FreeList DecompactPtr (getBase Rec) Context of
           None \<Rightarrow> None
         | Some C \<Rightarrow> Some (releaseFreeMemoryToOS pf C Rec SkipRegion))"


subsection \<open>What a run of the tracker emits\<close>

text \<open>
  The ranges one call adds to the recorder's trace, and the ranges of a run cut into
  segments: \<open>sep c\<close> says that the call \<open>c\<close> ends a segment (the range it closes still
  belongs to the segment it ends).
\<close>

definition emits :: "tracker_call \<Rightarrow> FreePagesRangeTracker \<Rightarrow> (uptr \<times> uptr) list" where
  "emits c t =
     drop (length (releasedRanges (Recorder t))) (releasedRanges (Recorder (tracker_step c t)))"

fun segments ::
  "(tracker_call \<Rightarrow> bool) \<Rightarrow> tracker_call list \<Rightarrow> FreePagesRangeTracker \<Rightarrow> (uptr \<times> uptr) list
     \<Rightarrow> (uptr \<times> uptr) list list" where
  "segments sep [] t cur = [cur]"
| "segments sep (c # cs) t cur =
     (if sep c then (cur @ emits c t) # segments sep cs (tracker_step c t) []
      else segments sep cs (tracker_step c t) (cur @ emits c t))"

fun isSkipPages :: "tracker_call \<Rightarrow> bool" where
  "isSkipPages (SkipPages N) = True"
| "isSkipPages c = False"

fun isSkipOrFinish :: "tracker_call \<Rightarrow> bool" where
  "isSkipOrFinish (ProcessNextPage b) = False"
| "isSkipOrFinish c = True"

text \<open>The pages a run moves \<open>CurrentPage\<close> by.\<close>

fun pagesAdvanced :: "tracker_call list \<Rightarrow> nat" where
  "pagesAdvanced [] = 0"
| "pagesAdvanced (ProcessNextPage b # cs) = 1 + pagesAdvanced cs"
| "pagesAdvanced (SkipPages N # cs) = unat N + pagesAdvanced cs"
| "pagesAdvanced (Finish # cs) = pagesAdvanced cs"

text \<open>
  Ranges that are not empty, strictly increasing in their start and pairwise disjoint;
  and ranges no two of which touch.
\<close>

definition increasingDisjoint :: "(uptr \<times> uptr) list \<Rightarrow> bool" where
  "increasingDisjoint rs =
     (list_all (\<lambda>(a, b). a < b) rs \<and> sorted_wrt (\<lambda>(a, b) (c, d). a < c \<and> b \<le> c) rs)"

definition nonAdjacent :: "(uptr \<times> uptr) list \<Rightarrow> bool" where
  "nonAdjacent rs = sorted_wrt (\<lambda>(a, b) (c, d). b < c) rs"

text \<open>The invariant of a run, for the proof: \<open>trackerLimit\<close> bounds what was emitted.\<close>

definition trackerLimit :: "FreePagesRangeTracker \<Rightarrow> nat" where
  "trackerLimit t =
     (if InRange t then unat (CurrentRangeStatePage t) else unat (CurrentPage t))
       * 2 ^ unat (TPageSizeLog t)"

definition trackerInv :: "FreePagesRangeTracker \<Rightarrow> (uptr \<times> uptr) list \<Rightarrow> (uptr \<times> uptr) list \<Rightarrow> bool" where
  "trackerInv t done cur =
     ((InRange t \<longrightarrow> unat (CurrentRangeStatePage t) < unat (CurrentPage t))
      \<and> list_all (\<lambda>(a, b). unat b \<le> trackerLimit t) done
      \<and> list_all (\<lambda>(a, b). unat b < trackerLimit t) cur
      \<and> increasingDisjoint done \<and> nonAdjacent cur)"

subsection \<open>Well-formed page maps and runs of calls\<close>

text \<open>
  The geometry \<open>reset\<close> computes: \<open>2 ^ CounterSizeBitsLog\<close> bits per counter with
  \<open>CounterMask\<close> all of them, \<open>2 ^ PackingRatioLog\<close> counters per 64-bit word, enough
  words per region for \<open>NumCounters\<close> counters, and a buffer whose word count fits
  \<open>uptr\<close>.
\<close>

definition wfMap :: "RegionPageMap \<Rightarrow> bool" where
  "wfMap m =
     (unat (PackingRatioLog m) + unat (CounterSizeBitsLog m) = 6
      \<and> CounterMask m = mask (2 ^ unat (CounterSizeBitsLog m))
      \<and> BitOffsetMask m = mask (unat (PackingRatioLog m))
      \<and> unat (NumCounters m) \<le> unat (SizePerRegion m) * 2 ^ unat (PackingRatioLog m)
      \<and> unat (Regions m) * unat (SizePerRegion m) < 2 ^ 64)"

definition validIndex :: "RegionPageMap \<Rightarrow> uptr \<Rightarrow> uptr \<Rightarrow> bool" where
  "validIndex m Region I = (Region < Regions m \<and> I < NumCounters m)"

text \<open>The indices a range call visits: \<open>From, From + 1, ...\<close> below \<open>Top\<close>.\<close>

definition rangeIndices :: "uptr \<Rightarrow> uptr \<Rightarrow> uptr list" where
  "rangeIndices From Top = map of_nat [unat From ..< unat Top]"

text \<open>
  The mutating calls of the map, and the precondition the source states for each (its
  \<open>DCHECK\<close>s): a range call is legal when its region is valid and each \<open>inc\<close> it makes
  meets the precondition of \<open>inc\<close>.
\<close>

datatype map_call =
  Inc uptr uptr
| IncN uptr uptr uptr
| IncRange uptr uptr uptr
| SetAsAllCounted uptr uptr
| SetAsAllCountedRange uptr uptr uptr

fun map_step :: "map_call \<Rightarrow> RegionPageMap \<Rightarrow> RegionPageMap" where
  "map_step (Inc Region I) m = incCounter m Region I"
| "map_step (IncN Region I N) m = incN m Region I N"
| "map_step (IncRange Region From To) m = incRange m Region From To"
| "map_step (SetAsAllCounted Region I) m = setAsAllCounted m Region I"
| "map_step (SetAsAllCountedRange Region From To) m = setAsAllCountedRange m Region From To"

fun legal :: "map_call \<Rightarrow> RegionPageMap \<Rightarrow> bool" where
  "legal (Inc Region I) m = (validIndex m Region I \<and> get m Region I < CounterMask m)"
| "legal (IncN Region I N) m =
     (validIndex m Region I \<and> 0 < N \<and> N \<le> CounterMask m
      \<and> get m Region I \<le> CounterMask m - N \<and> \<not> isAllCounted m Region I)"
| "legal (IncRange Region From To) m =
     (Region < Regions m \<and> From \<le> To
      \<and> list_all (\<lambda>I. get m Region I < CounterMask m)
           (rangeIndices From (MinU (To + 1) (NumCounters m))))"
| "legal (SetAsAllCounted Region I) m = validIndex m Region I"
| "legal (SetAsAllCountedRange Region From To) m = (Region < Regions m \<and> From \<le> To)"

fun map_run :: "map_call list \<Rightarrow> RegionPageMap \<Rightarrow> RegionPageMap" where
  "map_run [] m = m"
| "map_run (c # cs) m = map_run cs (map_step c m)"

fun legal_run :: "map_call list \<Rightarrow> RegionPageMap \<Rightarrow> bool" where
  "legal_run [] m = True"
| "legal_run (c # cs) m = (legal c m \<and> legal_run cs (map_step c m))"

text \<open>
  The counters as the spec's table describes them, unpacked and unbounded: \<open>inc\<close> adds
  1, \<open>incN\<close> adds \<open>N\<close>, \<open>setAsAllCounted\<close> stores the sentinel, the range calls do so for
  each index from \<open>From\<close> below \<open>min(To + 1, CountersPerRegion)\<close>.
\<close>

fun spec_step :: "uptr \<Rightarrow> uptr \<Rightarrow> map_call \<Rightarrow> (uptr \<times> uptr \<Rightarrow> nat) \<Rightarrow> (uptr \<times> uptr \<Rightarrow> nat)" where
  "spec_step NumC Sentinel (Inc Region I) f = f((Region, I) := f (Region, I) + 1)"
| "spec_step NumC Sentinel (IncN Region I N) f = f((Region, I) := f (Region, I) + unat N)"
| "spec_step NumC Sentinel (IncRange Region From To) f =
     (\<lambda>(r, i). if r = Region \<and> From \<le> i \<and> i < MinU (To + 1) NumC then f (r, i) + 1
               else f (r, i))"
| "spec_step NumC Sentinel (SetAsAllCounted Region I) f = f((Region, I) := unat Sentinel)"
| "spec_step NumC Sentinel (SetAsAllCountedRange Region From To) f =
     (\<lambda>(r, i). if r = Region \<and> From \<le> i \<and> i < MinU (To + 1) NumC then unat Sentinel
               else f (r, i))"

fun spec_run :: "uptr \<Rightarrow> uptr \<Rightarrow> map_call list \<Rightarrow> (uptr \<times> uptr \<Rightarrow> nat) \<Rightarrow> (uptr \<times> uptr \<Rightarrow> nat)" where
  "spec_run NumC Sentinel [] f = f"
| "spec_run NumC Sentinel (c # cs) f = spec_run NumC Sentinel cs (spec_step NumC Sentinel c f)"

text \<open>A small map for examples: one region of four counters, \<open>MaxValue = 3\<close>.\<close>

definition exampleMap :: RegionPageMap where
  "exampleMap =
     fst (reset \<lparr>PageSizeCached = 4096, tryLock = True, mapSucceeds = (\<lambda>_. True)\<rparr>
            1 4 3 RegionPageMap_new)"

subsection \<open>The release scan as a list of decisions\<close>

text \<open>
  For the proofs, the scan is read off lists: the pages of a region with the block count
  the scan expects on each, the decisions \<open>updateAsAllCountedIf\<close> takes on them, and the
  calls the scan makes on the tracker.
\<close>

definition canRelease :: "RegionPageMap \<Rightarrow> uptr \<Rightarrow> uptr \<Rightarrow> uptr \<Rightarrow> bool" where
  "canRelease pm I J e = (get pm I J = CounterMask pm \<or> get pm I J = e)"

fun slowExpects ::
  "uptr \<Rightarrow> uptr \<Rightarrow> uptr \<Rightarrow> uptr \<Rightarrow> uptr \<Rightarrow> uptr \<Rightarrow> uptr list \<Rightarrow> (uptr \<times> uptr) list" where
  "slowExpects PgSize BlkSize Pn Pnc Prev Cur [] = []"
| "slowExpects PgSize BlkSize Pn Pnc Prev Cur (J # Js) =
     (let (BlocksPerPage, Prev1, Cur1) = slowPageStep PgSize BlkSize Pn Pnc Prev Cur
      in (J, BlocksPerPage) # slowExpects PgSize BlkSize Pn Pnc Prev1 Cur1 Js)"

definition regionExpects :: "PageReleaseContext \<Rightarrow> (uptr \<times> uptr) list" where
  "regionExpects C =
     (if SameBlockCountPerPage C
      then map (\<lambda>J. (J, FullPagesBlockCountMax C)) (rangeIndices 0 (PagesCount C))
      else let Pn = (if BlockSize C < PageSize C then PageSize C div BlockSize C else 1);
               Pnc = Pn * BlockSize C;
               (Prev, Cur) =
                 (if ReleasePageOffset C > 0
                  then (ReleasePageOffset C * PageSize C,
                        roundUpSlow (ReleasePageOffset C * PageSize C) (BlockSize C))
                  else (0, 0))
           in slowExpects (PageSize C) (BlockSize C) Pn Pnc Prev Cur
                (rangeIndices 0 (PagesCount C)))"

fun scanPagesList :: "uptr \<Rightarrow> (uptr \<times> uptr) list \<Rightarrow> RegionPageMap \<Rightarrow> RegionPageMap \<times> bool list" where
  "scanPagesList I [] pm = (pm, [])"
| "scanPagesList I ((J, e) # xs) pm =
     (let (b, pm1) = updateAsAllCountedIf pm I J e;
          (pm2, bs) = scanPagesList I xs pm1
      in (pm2, b # bs))"

fun scanRegionsList ::
  "(uptr \<Rightarrow> bool) \<Rightarrow> uptr \<Rightarrow> (uptr \<times> uptr) list \<Rightarrow> uptr list \<Rightarrow> RegionPageMap
     \<Rightarrow> RegionPageMap \<times> tracker_call list" where
  "scanRegionsList SkipRegion PagesCount0 xs [] pm = (pm, [])"
| "scanRegionsList SkipRegion PagesCount0 xs (I # Is) pm =
     (if SkipRegion I
      then let (pm2, cs) = scanRegionsList SkipRegion PagesCount0 xs Is pm
           in (pm2, SkipPages PagesCount0 # cs)
      else let (pm1, bs) = scanPagesList I xs pm;
               (pm2, cs) = scanRegionsList SkipRegion PagesCount0 xs Is pm1
           in (pm2, map ProcessNextPage bs @ cs))"

section \<open>Machine arithmetic\<close>

lemma unat_lt_2p64: "unat (x :: uptr) < 2 ^ 64"
  using unsigned_less [of x, where 'a=nat] by simp

lemma unat_add_nowrap: "unat (x :: uptr) + unat y < 2 ^ 64 \<Longrightarrow> unat (x + y) = unat x + unat y"
  by (simp add: unat_word_ariths)

lemma unat_mult_nowrap: "unat (x :: uptr) * unat y < 2 ^ 64 \<Longrightarrow> unat (x * y) = unat x * unat y"
  by (simp add: unat_word_ariths)

lemma unat_of_nat_uptr: "k < 2 ^ 64 \<Longrightarrow> unat (of_nat k :: uptr) = k"
  by (simp add: unat_of_nat)

section \<open>ReleaseRecorder: accounting\<close>

lemma releaseAll_append: "releaseAll (cs @ ds) r = releaseAll ds (releaseAll cs r)"
  by (induction cs arbitrary: r) auto

lemma releaseAll_bytes_word:
  "ReleasedBytes (releaseAll cs r) = ReleasedBytes r + (\<Sum>(From, To)\<leftarrow>cs. To - From)"
  by (induction cs arbitrary: r) (auto simp: releasePageRangeToOS_def Let_def)

lemma releaseAll_count_word:
  "ReleasedRangesCount (releaseAll cs r) = ReleasedRangesCount r + of_nat (length cs)"
  by (induction cs arbitrary: r) (auto simp: releasePageRangeToOS_def Let_def)

lemma unat_range_sum:
  assumes "\<forall>(From, To)\<in>set cs. From \<le> To"
    and "(\<Sum>(From, To)\<leftarrow>cs. unat To - unat From) < 2 ^ 64"
  shows "unat (\<Sum>(From, To)\<leftarrow>cs. To - From :: uptr) = (\<Sum>(From, To)\<leftarrow>cs. unat To - unat From)"
  using assms
proof (induction cs)
  case Nil
  then show ?case by simp
next
  case (Cons c cs)
  obtain f t where c: "c = (f, t)" by (cases c)
  have ft: "f \<le> t" using Cons.prems(1) c by auto
  have u: "unat (t - f) = unat t - unat f" using ft by (simp add: unat_sub)
  have s: "(\<Sum>(From, To)\<leftarrow>cs. unat To - unat From) < 2 ^ 64" using Cons.prems(2) c by simp
  have ih: "unat (\<Sum>(From, To)\<leftarrow>cs. To - From :: uptr) = (\<Sum>(From, To)\<leftarrow>cs. unat To - unat From)"
    using Cons.IH Cons.prems(1) s by auto
  have "unat (t - f) + unat (\<Sum>(From, To)\<leftarrow>cs. To - From :: uptr) < 2 ^ 64"
    using Cons.prems(2) c u ih by simp
  then have "unat ((t - f) + (\<Sum>(From, To)\<leftarrow>cs. To - From :: uptr)) = unat (t - f) + unat (\<Sum>(From, To)\<leftarrow>cs. To - From :: uptr)"
    by (rule unat_add_nowrap)
  then show ?case using c u ih by simp
qed

lemma range_sum_take_le:
  "(\<Sum>(From, To)\<leftarrow>take k cs. unat To - unat From) \<le> (\<Sum>(From :: uptr, To :: uptr)\<leftarrow>cs. unat To - unat From)"
proof -
  have "(\<Sum>(From, To)\<leftarrow>cs. unat To - unat From) = (\<Sum>(From, To)\<leftarrow>take k cs @ drop k cs. unat To - unat From)"
    by simp
  also have "\<dots> = (\<Sum>(From, To)\<leftarrow>take k cs. unat To - unat From) + (\<Sum>(From, To)\<leftarrow>drop k cs. unat To - unat From)"
    by (simp only: map_append sum_list_append)
  finally show ?thesis by simp
qed

text \<open>
  C8. After any finite sequence of calls \<open>releasePageRangeToOS(From, To)\<close> with
  \<open>From \<le> To\<close> on a fresh recorder, \<open>getReleasedBytes()\<close> is the sum of the
  \<open>To - From\<close> and \<open>getReleasedRangesCount()\<close> is the number of calls, and neither
  counter decreases from one call to the next. Both counters are \<open>uptr\<close>: the sum and
  the number of calls are taken below \<open>2 ^ 64\<close>, where the counters do not wrap.
\<close>

theorem recorder_accounting:
  assumes ord: "\<forall>(From, To)\<in>set calls. From \<le> To"
    and bytes: "(\<Sum>(From, To)\<leftarrow>calls. unat To - unat From) < 2 ^ 64"
    and count: "length calls < 2 ^ 64"
  shows "unat (getReleasedBytes (releaseAll calls (ReleaseRecorder_new B)))
           = (\<Sum>(From, To)\<leftarrow>calls. unat To - unat From)
       \<and> unat (getReleasedRangesCount (releaseAll calls (ReleaseRecorder_new B))) = length calls
       \<and> (\<forall>k<length calls.
             getReleasedBytes (releaseAll (take k calls) (ReleaseRecorder_new B))
               \<le> getReleasedBytes (releaseAll (take (Suc k) calls) (ReleaseRecorder_new B))
           \<and> getReleasedRangesCount (releaseAll (take k calls) (ReleaseRecorder_new B))
               \<le> getReleasedRangesCount (releaseAll (take (Suc k) calls) (ReleaseRecorder_new B)))"
proof -
  have B: "\<And>k. unat (getReleasedBytes (releaseAll (take k calls) (ReleaseRecorder_new B)))
           = (\<Sum>(From, To)\<leftarrow>take k calls. unat To - unat From)"
  proof -
    fix k
    have o: "\<forall>(From, To)\<in>set (take k calls). From \<le> To"
      using ord by (auto dest: in_set_takeD)
    have b: "(\<Sum>(From, To)\<leftarrow>take k calls. unat To - unat From) < 2 ^ 64"
      using bytes range_sum_take_le [of k calls] by linarith
    show "unat (getReleasedBytes (releaseAll (take k calls) (ReleaseRecorder_new B)))
           = (\<Sum>(From, To)\<leftarrow>take k calls. unat To - unat From)"
      using unat_range_sum [OF o b]
      by (simp add: getReleasedBytes_def releaseAll_bytes_word ReleaseRecorder_new_def)
  qed
  have C: "\<And>k. k \<le> length calls \<Longrightarrow>
      unat (getReleasedRangesCount (releaseAll (take k calls) (ReleaseRecorder_new B))) = k"
  proof -
    fix k assume "k \<le> length calls"
    then have "k < 2 ^ 64" using count by linarith
    then show "unat (getReleasedRangesCount (releaseAll (take k calls) (ReleaseRecorder_new B))) = k"
      using \<open>k \<le> length calls\<close>
      by (simp add: getReleasedRangesCount_def releaseAll_count_word ReleaseRecorder_new_def
          unat_of_nat_uptr min_def)
  qed
  have mono: "\<And>k. (\<Sum>(From, To)\<leftarrow>take k calls. unat To - unat From)
      \<le> (\<Sum>(From, To)\<leftarrow>take (Suc k) calls. unat To - unat From)"
  proof -
    fix k
    have "take k calls = take k (take (Suc k) calls)" by (simp add: min_def)
    then show "(\<Sum>(From, To)\<leftarrow>take k calls. unat To - unat From)
      \<le> (\<Sum>(From, To)\<leftarrow>take (Suc k) calls. unat To - unat From)"
      using range_sum_take_le [of k "take (Suc k) calls"] by simp
  qed
  show ?thesis
  proof (intro conjI allI impI)
    show "unat (getReleasedBytes (releaseAll calls (ReleaseRecorder_new B)))
           = (\<Sum>(From, To)\<leftarrow>calls. unat To - unat From)"
      using B [of "length calls"] by simp
    show "unat (getReleasedRangesCount (releaseAll calls (ReleaseRecorder_new B))) = length calls"
      using C [of "length calls"] by simp
  next
    fix k assume k: "k < length calls"
    show "getReleasedBytes (releaseAll (take k calls) (ReleaseRecorder_new B))
               \<le> getReleasedBytes (releaseAll (take (Suc k) calls) (ReleaseRecorder_new B))"
      using B [of k] B [of "Suc k"] mono [of k] by (simp add: word_le_nat_alt)
    show "getReleasedRangesCount (releaseAll (take k calls) (ReleaseRecorder_new B))
               \<le> getReleasedRangesCount (releaseAll (take (Suc k) calls) (ReleaseRecorder_new B))"
      using C [of k] C [of "Suc k"] k by (simp add: word_le_nat_alt)
  qed
qed

theorem recorder_accounting_witness:
  "unat (getReleasedBytes (releaseAll [(0, 4096), (8192, 16384)] (ReleaseRecorder_new 0))) = 12288
   \<and> unat (getReleasedRangesCount (releaseAll [(0, 4096), (8192, 16384)] (ReleaseRecorder_new 0))) = 2"
  using recorder_accounting [of "[(0, 4096), (8192, 16384)]" 0]
  by simp

section \<open>Geometry classification\<close>

text \<open>
  C2. For every \<open>BlockSize \<ge> 1\<close> and page size the constructor sets
  \<open>(FullPagesBlockCountMax, SameBlockCountPerPage)\<close> by the rows of the table:
  A \<open>(PageSize / BlockSize, yes)\<close>, B \<open>(PageSize / BlockSize + 1, yes)\<close>,
  C \<open>(PageSize / BlockSize + 2, no)\<close>, D \<open>(1, yes)\<close>, E \<open>(2, no)\<close>, each under the
  condition the table gives, C and E being the remaining cases of \<open>BlockSize \<le> PageSize\<close>
  and of \<open>BlockSize > PageSize\<close>. (In row B, \<open>PageSize mod BlockSize\<close> is not 0: in HOL
  \<open>x mod 0 = x\<close>, so with \<open>BlockSize \<ge> 1\<close> the condition of row B excludes that of
  row A.)
\<close>

theorem geometry_classification:
  assumes "1 \<le> BlockSize0"
  shows
    "(BlockSize0 \<le> PageSizeCached pf \<and> PageSizeCached pf mod BlockSize0 = 0 \<longrightarrow>
        FullPagesBlockCountMax (PageReleaseContext_new pf BlockSize0 RegionSize0 NumberOfRegions0 ReleaseSize ReleaseOffset)
          = PageSizeCached pf div BlockSize0
        \<and> SameBlockCountPerPage (PageReleaseContext_new pf BlockSize0 RegionSize0 NumberOfRegions0 ReleaseSize ReleaseOffset))
   \<and> (BlockSize0 \<le> PageSizeCached pf \<and> BlockSize0 mod (PageSizeCached pf mod BlockSize0) = 0 \<longrightarrow>
        FullPagesBlockCountMax (PageReleaseContext_new pf BlockSize0 RegionSize0 NumberOfRegions0 ReleaseSize ReleaseOffset)
          = PageSizeCached pf div BlockSize0 + 1
        \<and> SameBlockCountPerPage (PageReleaseContext_new pf BlockSize0 RegionSize0 NumberOfRegions0 ReleaseSize ReleaseOffset))
   \<and> (BlockSize0 \<le> PageSizeCached pf \<and> PageSizeCached pf mod BlockSize0 \<noteq> 0
        \<and> BlockSize0 mod (PageSizeCached pf mod BlockSize0) \<noteq> 0 \<longrightarrow>
        FullPagesBlockCountMax (PageReleaseContext_new pf BlockSize0 RegionSize0 NumberOfRegions0 ReleaseSize ReleaseOffset)
          = PageSizeCached pf div BlockSize0 + 2
        \<and> \<not> SameBlockCountPerPage (PageReleaseContext_new pf BlockSize0 RegionSize0 NumberOfRegions0 ReleaseSize ReleaseOffset))
   \<and> (BlockSize0 > PageSizeCached pf \<and> BlockSize0 mod PageSizeCached pf = 0 \<longrightarrow>
        FullPagesBlockCountMax (PageReleaseContext_new pf BlockSize0 RegionSize0 NumberOfRegions0 ReleaseSize ReleaseOffset)
          = 1
        \<and> SameBlockCountPerPage (PageReleaseContext_new pf BlockSize0 RegionSize0 NumberOfRegions0 ReleaseSize ReleaseOffset))
   \<and> (BlockSize0 > PageSizeCached pf \<and> BlockSize0 mod PageSizeCached pf \<noteq> 0 \<longrightarrow>
        FullPagesBlockCountMax (PageReleaseContext_new pf BlockSize0 RegionSize0 NumberOfRegions0 ReleaseSize ReleaseOffset)
          = 2
        \<and> \<not> SameBlockCountPerPage (PageReleaseContext_new pf BlockSize0 RegionSize0 NumberOfRegions0 ReleaseSize ReleaseOffset))"
proof -
  have nz: "BlockSize0 \<noteq> 0" using assms by auto
  have excl: "PageSizeCached pf mod BlockSize0 = 0 \<Longrightarrow>
      BlockSize0 mod (PageSizeCached pf mod BlockSize0) \<noteq> 0"
    using nz by simp
  show ?thesis
    using excl by (auto simp: PageReleaseContext_new_def Let_def)
qed

theorem geometry_classification_witness:
  "FullPagesBlockCountMax
      (PageReleaseContext_new \<lparr>PageSizeCached = 4096, tryLock = True, mapSucceeds = (\<lambda>_. True)\<rparr>
         48 65536 1 65536 0) = 86
   \<and> SameBlockCountPerPage
      (PageReleaseContext_new \<lparr>PageSizeCached = 4096, tryLock = True, mapSucceeds = (\<lambda>_. True)\<rparr>
         48 65536 1 65536 0)
   \<and> FullPagesBlockCountMax
      (PageReleaseContext_new \<lparr>PageSizeCached = 4096, tryLock = True, mapSucceeds = (\<lambda>_. True)\<rparr>
         3000 65536 1 65536 0) = 3
   \<and> \<not> SameBlockCountPerPage
      (PageReleaseContext_new \<lparr>PageSizeCached = 4096, tryLock = True, mapSucceeds = (\<lambda>_. True)\<rparr>
         3000 65536 1 65536 0)"
  using geometry_classification
          [of 48 "\<lparr>PageSizeCached = 4096, tryLock = True, mapSucceeds = (\<lambda>_. True)\<rparr>" 65536 1 65536 0]
        geometry_classification
          [of 3000 "\<lparr>PageSizeCached = 4096, tryLock = True, mapSucceeds = (\<lambda>_. True)\<rparr>" 65536 1 65536 0]
  by simp

section \<open>RegionPageMap: the buffer\<close>

text \<open>
  C10 as stated: on the mapped path \<open>reset\<close> asks the platform for the ceiling of
  \<open>BufferSize / PageSize\<close> bytes. It does not: with the static buffer locked, one region, one
  counter and \<open>MaxValue = 1\<close>, \<open>BufferSize\<close> is 8, that ceiling is 1 for pages of 4096
  bytes, and \<open>reset\<close> asks for 4096 bytes.
\<close>

theorem reset_map_size_counterexample:
  "BufferSize (fst (reset \<lparr>PageSizeCached = 4096, tryLock = False, mapSucceeds = (\<lambda>_. True)\<rparr>
                      1 1 1 RegionPageMap_new)) = 8
   \<and> snd (reset \<lparr>PageSizeCached = 4096, tryLock = False, mapSucceeds = (\<lambda>_. True)\<rparr>
             1 1 1 RegionPageMap_new) = [4096]
   \<and> snd (reset \<lparr>PageSizeCached = 4096, tryLock = False, mapSucceeds = (\<lambda>_. True)\<rparr>
             1 1 1 RegionPageMap_new)
       \<noteq> [(BufferSize (fst (reset \<lparr>PageSizeCached = 4096, tryLock = False, mapSucceeds = (\<lambda>_. True)\<rparr>
                      1 1 1 RegionPageMap_new)) + 4096 - 1) div 4096]"
  by code_simp

text \<open>
  C10, amended. Whenever \<open>reset\<close> takes the mapped path (\<open>BufferSize\<close> exceeds the static
  buffer's \<open>StaticBufferCount * 8\<close> bytes, or \<open>tryLock\<close> fails), it makes one call of
  \<open>map\<close>, for \<open>roundUp(BufferSize, PageSize)\<close> bytes: \<open>BufferSize\<close> rounded up to whole
  pages. If that call fails, \<open>Buffer\<close> is null and \<open>isAllocated()\<close> is false; if it
  succeeds, \<open>isAllocated()\<close> is true.
\<close>

theorem reset_mapped_path:
  assumes "\<not> (BufferSize (fst (reset pf NumberOfRegion CountersPerRegion MaxValue m))
                \<le> StaticBufferCount * 8 \<and> tryLock pf)"
  shows "snd (reset pf NumberOfRegion CountersPerRegion MaxValue m)
           = [roundUp (BufferSize (fst (reset pf NumberOfRegion CountersPerRegion MaxValue m)))
                (PageSizeCached pf)]
       \<and> isAllocated (fst (reset pf NumberOfRegion CountersPerRegion MaxValue m))
           = mapSucceeds pf
               (roundUp (BufferSize (fst (reset pf NumberOfRegion CountersPerRegion MaxValue m)))
                  (PageSizeCached pf))
       \<and> (Buffer (fst (reset pf NumberOfRegion CountersPerRegion MaxValue m)) = nullptr)
           = (\<not> mapSucceeds pf
               (roundUp (BufferSize (fst (reset pf NumberOfRegion CountersPerRegion MaxValue m)))
                  (PageSizeCached pf)))"
  using assms
  by (auto simp: reset_def Let_def isAllocated_def split: if_splits)

theorem reset_mapped_path_witness:
  "snd (reset \<lparr>PageSizeCached = 4096, tryLock = False, mapSucceeds = (\<lambda>_. False)\<rparr>
          1 1 1 RegionPageMap_new) = [4096]
   \<and> \<not> isAllocated (fst (reset \<lparr>PageSizeCached = 4096, tryLock = False, mapSucceeds = (\<lambda>_. False)\<rparr>
          1 1 1 RegionPageMap_new))"
proof -
  have b: "BufferSize (fst (reset \<lparr>PageSizeCached = 4096, tryLock = False, mapSucceeds = (\<lambda>_. False)\<rparr>
                      1 1 1 RegionPageMap_new)) = 8"
    by code_simp
  have r: "roundUp 8 4096 = (4096 :: uptr)"
    by (simp add: roundUp_def)
  show ?thesis
    using reset_mapped_path
            [of "\<lparr>PageSizeCached = 4096, tryLock = False, mapSucceeds = (\<lambda>_. False)\<rparr>"
                1 1 1 RegionPageMap_new]
    by (simp add: b r)
qed

section \<open>FreePagesRangeTracker: the emitted ranges\<close>

lemma getLog2_4096: "getLog2 4096 = 12"
  by (simp add: getLog2_def bit_length.simps)

lemmas tracker_eval =
  FreePagesRangeTracker_new_def ReleaseRecorder_new_def getLog2_4096 emits_def
  processNextPage_def skipPages_def finish_def closeOpenedRange_def releasedRanges_def
  releasePageRangeToOS_def Let_def nonAdjacent_def increasingDisjoint_def

lemma releasedRanges_release:
  "releasedRanges (releasePageRangeToOS From To r) = releasedRanges r @ [(From, To)]"
  by (simp add: releasedRanges_def releasePageRangeToOS_def Let_def)

lemma closeOpenedRange_ranges:
  "releasedRanges (Recorder (closeOpenedRange t)) =
     releasedRanges (Recorder t) @
       (if InRange t
        then [(push_bit (unat (TPageSizeLog t)) (CurrentRangeStatePage t),
               push_bit (unat (TPageSizeLog t)) (CurrentPage t))]
        else [])"
  by (simp add: closeOpenedRange_def releasedRanges_release)

lemma tracker_step_ranges:
  "releasedRanges (Recorder (tracker_step c t)) =
     releasedRanges (Recorder t) @
       (if InRange t \<and> c \<noteq> ProcessNextPage True
        then [(push_bit (unat (TPageSizeLog t)) (CurrentRangeStatePage t),
               push_bit (unat (TPageSizeLog t)) (CurrentPage t))]
        else [])"
proof (cases c)
  case (ProcessNextPage b)
  then show ?thesis
    by (cases b) (simp_all add: processNextPage_def Let_def closeOpenedRange_ranges)
next
  case (SkipPages N)
  then show ?thesis by (simp add: skipPages_def Let_def closeOpenedRange_ranges)
next
  case Finish
  then show ?thesis by (simp add: finish_def closeOpenedRange_ranges)
qed

lemma emits_eq:
  "emits c t =
     (if InRange t \<and> c \<noteq> ProcessNextPage True
      then [(push_bit (unat (TPageSizeLog t)) (CurrentRangeStatePage t),
             push_bit (unat (TPageSizeLog t)) (CurrentPage t))]
      else [])"
  unfolding emits_def tracker_step_ranges by simp

lemma tracker_step_emits:
  "releasedRanges (Recorder (tracker_step c t)) = releasedRanges (Recorder t) @ emits c t"
  unfolding emits_eq by (rule tracker_step_ranges)

lemma unat_push_bit_nowrap:
  "unat (x :: uptr) * 2 ^ L < 2 ^ 64 \<Longrightarrow> unat (push_bit L x) = unat x * 2 ^ L"
  unfolding unsigned_push_bit_eq by (simp add: push_bit_eq_mult take_bit_eq_mod)

lemma budget_cur:
  assumes "(unat (cp :: uptr) + k) * 2 ^ L < (2 :: nat) ^ 64"
  shows "unat cp * 2 ^ L < 2 ^ 64" and "unat cp + k < 2 ^ 64"
proof -
  have "unat cp * 2 ^ L \<le> (unat cp + k) * 2 ^ L" by (intro mult_le_mono1) simp
  then show "unat cp * 2 ^ L < 2 ^ 64" using assms by (rule le_less_trans)
  have "unat cp + k \<le> (unat cp + k) * 2 ^ L" by simp
  then show "unat cp + k < 2 ^ 64" using assms by (rule le_less_trans)
qed

lemma ends_le_mono:
  "list_all (\<lambda>(a, b). unat b \<le> n) xs \<Longrightarrow> n \<le> m \<Longrightarrow> list_all (\<lambda>(a, b). unat b \<le> m) xs"
  by (induction xs) auto

lemma ends_less_mono:
  "list_all (\<lambda>(a, b). unat b \<le> n) xs \<Longrightarrow> n < m \<Longrightarrow> list_all (\<lambda>(a :: uptr, b :: uptr). unat b < m) xs"
  by (induction xs) auto

lemma trackerInv_step:
  assumes inv: "trackerInv t done cur"
    and budget: "(unat (CurrentPage t) + pagesAdvanced (c # cs)) * 2 ^ unat (TPageSizeLog t) < 2 ^ 64"
  shows "trackerInv (tracker_step c t) (done @ emits c t)
           (if isSkipOrFinish c then [] else cur @ emits c t)
       \<and> nonAdjacent (cur @ emits c t)
       \<and> (unat (CurrentPage (tracker_step c t)) + pagesAdvanced cs)
             * 2 ^ unat (TPageSizeLog (tracker_step c t)) < 2 ^ 64
       \<and> TPageSizeLog (tracker_step c t) = TPageSizeLog t"
proof -
  define L where "L = unat (TPageSizeLog t)"
  define cp where "cp = unat (CurrentPage t)"
  define st where "st = unat (CurrentRangeStatePage t)"
  have cpL: "cp * 2 ^ L < 2 ^ 64"
    using budget budget_cur(1) unfolding L_def cp_def by blast
  have i1: "InRange t \<Longrightarrow> st < cp"
    using inv unfolding trackerInv_def st_def cp_def by simp
  have stL: "InRange t \<Longrightarrow> st * 2 ^ L < 2 ^ 64"
  proof -
    assume "InRange t"
    then have "st * 2 ^ L \<le> cp * 2 ^ L" using i1 by (intro mult_le_mono1) simp
    then show ?thesis using cpL by (rule le_less_trans)
  qed
  have ust: "InRange t \<Longrightarrow> unat (push_bit L (CurrentRangeStatePage t)) = st * 2 ^ L"
    using stL unat_push_bit_nowrap unfolding st_def by blast
  have ucp: "unat (push_bit L (CurrentPage t)) = cp * 2 ^ L"
    using cpL unat_push_bit_nowrap unfolding cp_def by blast
  have lim: "trackerLimit t = (if InRange t then st else cp) * 2 ^ L"
    unfolding trackerLimit_def st_def cp_def L_def by simp
  have i2: "list_all (\<lambda>(a, b). unat b \<le> trackerLimit t) done"
    and i3: "list_all (\<lambda>(a, b). unat b < trackerLimit t) cur"
    and i4: "increasingDisjoint done" and i5: "nonAdjacent cur"
    using inv unfolding trackerInv_def by simp_all
  have lt: "InRange t \<Longrightarrow> st * 2 ^ L < cp * 2 ^ L"
    using i1 by simp
  text \<open>the range a closing call emits\<close>
  define rng where "rng = (push_bit L (CurrentRangeStatePage t), push_bit L (CurrentPage t))"
  have em: "emits c t = (if InRange t \<and> c \<noteq> ProcessNextPage True then [rng] else [])"
    unfolding emits_eq rng_def L_def by simp
  have rng_ok: "InRange t \<Longrightarrow> fst rng < snd rng"
    using ust ucp lt unfolding rng_def by (simp add: word_less_nat_alt)
  have done_rng: "InRange t \<Longrightarrow> list_all (\<lambda>(a, b). a < fst rng \<and> b \<le> fst rng) done"
  proof -
    assume ir: "InRange t"
    have p1: "list_all (\<lambda>(a, b). a < b) done" using i4 unfolding increasingDisjoint_def by simp
    have p2: "list_all (\<lambda>(a, b). unat b \<le> st * 2 ^ L) done" using i2 lim ir by simp
    have "\<And>a b. (a, b) \<in> set done \<Longrightarrow> a < fst rng \<and> b \<le> fst rng"
    proof -
      fix a b assume m: "(a, b) \<in> set done"
      have "unat a < unat b" using p1 m by (auto simp: list_all_iff word_less_nat_alt)
      moreover have "unat b \<le> st * 2 ^ L" using p2 m by (auto simp: list_all_iff)
      ultimately show "a < fst rng \<and> b \<le> fst rng"
        using ust [OF ir] unfolding rng_def by (simp add: word_less_nat_alt word_le_nat_alt)
    qed
    then show ?thesis by (auto simp: list_all_iff)
  qed
  have cur_rng: "InRange t \<Longrightarrow> list_all (\<lambda>(a, b). b < fst rng) cur"
  proof -
    assume ir: "InRange t"
    have "list_all (\<lambda>(a, b). unat b < st * 2 ^ L) cur" using i3 lim ir by simp
    then show ?thesis
      using ust [OF ir] unfolding rng_def
      by (auto simp: list_all_iff word_less_nat_alt)
  qed
  have na: "nonAdjacent (cur @ emits c t)"
    using i5 cur_rng unfolding em nonAdjacent_def
    by (auto simp: sorted_wrt_append list_all_iff)
  have idj: "increasingDisjoint (done @ emits c t)"
    using i4 done_rng rng_ok unfolding em increasingDisjoint_def
    by (auto simp: sorted_wrt_append list_all_iff split: prod.splits)
  have limle: "trackerLimit t \<le> cp * 2 ^ L"
    using lim lt by (cases "InRange t") simp_all
  have done_cp: "list_all (\<lambda>(a, b). unat b \<le> cp * 2 ^ L) (done @ emits c t)"
    using i2 limle ucp unfolding em rng_def by (auto simp: list_all_iff)
  have cur_cp: "list_all (\<lambda>(a, b). unat b \<le> cp * 2 ^ L) (cur @ emits c t)"
    using i3 limle ucp unfolding em rng_def by (fastforce simp: list_all_iff)
  show ?thesis
  proof (cases c)
    case (ProcessNextPage b)
    have n: "cp + 1 < 2 ^ 64"
      using budget budget_cur(2) [of "CurrentPage t" "pagesAdvanced (c # cs)" L] ProcessNextPage
      unfolding L_def cp_def by simp
    then have u: "unat (CurrentPage t + 1) = cp + 1"
      using unat_add_nowrap [of "CurrentPage t" 1] unfolding cp_def by simp
    have bud: "(unat (CurrentPage t + 1) + pagesAdvanced cs) * 2 ^ L < 2 ^ 64"
      using budget ProcessNextPage unfolding u L_def cp_def by (simp add: add.assoc)
    show ?thesis
    proof (cases b)
      case True
      have e: "emits c t = []" using em ProcessNextPage True by simp
      have l': "trackerLimit (tracker_step c t) = trackerLimit t"
        using ProcessNextPage True
        by (simp add: processNextPage_def Let_def trackerLimit_def)
      have "trackerInv (tracker_step c t) done cur"
        using inv ProcessNextPage True u i1 unfolding trackerInv_def l'
        by (auto simp: processNextPage_def Let_def cp_def st_def)
      then show ?thesis
        using e na bud ProcessNextPage True
        by (simp add: processNextPage_def Let_def L_def)
    next
      case False
      have l': "trackerLimit (tracker_step c t) = (cp + 1) * 2 ^ L"
        using ProcessNextPage False u
        by (simp add: processNextPage_def Let_def trackerLimit_def closeOpenedRange_def L_def)
      have nr: "\<not> InRange (tracker_step c t)"
        using ProcessNextPage False
        by (simp add: processNextPage_def Let_def closeOpenedRange_def)
      have d: "list_all (\<lambda>(a, b). unat b \<le> (cp + 1) * 2 ^ L) (done @ emits c t)"
        by (rule ends_le_mono [OF done_cp]) simp
      have k: "list_all (\<lambda>(a, b). unat b < (cp + 1) * 2 ^ L) (cur @ emits c t)"
        by (rule ends_less_mono [OF cur_cp]) simp
      have "trackerInv (tracker_step c t) (done @ emits c t) (cur @ emits c t)"
        unfolding trackerInv_def l' using nr d k idj na by simp
      then show ?thesis
        using na bud ProcessNextPage False
        by (simp add: processNextPage_def Let_def L_def closeOpenedRange_def)
    qed
  next
    case (SkipPages N)
    have n: "cp + unat N < 2 ^ 64"
      using budget budget_cur(2) [of "CurrentPage t" "pagesAdvanced (c # cs)" L] SkipPages
      unfolding L_def cp_def by simp
    then have u: "unat (CurrentPage t + N) = cp + unat N"
      using unat_add_nowrap [of "CurrentPage t" N] unfolding cp_def by simp
    have bud: "(unat (CurrentPage t + N) + pagesAdvanced cs) * 2 ^ L < 2 ^ 64"
      using budget SkipPages unfolding u L_def cp_def by (simp add: add.assoc)
    have l': "trackerLimit (tracker_step c t) = (cp + unat N) * 2 ^ L"
      using SkipPages u
      by (simp add: skipPages_def Let_def trackerLimit_def closeOpenedRange_def L_def)
    have nr: "\<not> InRange (tracker_step c t)"
      using SkipPages by (simp add: skipPages_def Let_def closeOpenedRange_def)
    have d: "list_all (\<lambda>(a, b). unat b \<le> (cp + unat N) * 2 ^ L) (done @ emits c t)"
      by (rule ends_le_mono [OF done_cp]) simp
    have "trackerInv (tracker_step c t) (done @ emits c t) []"
      unfolding trackerInv_def l' using nr d idj by (simp add: nonAdjacent_def)
    then show ?thesis
      using na bud SkipPages
      by (simp add: skipPages_def Let_def L_def closeOpenedRange_def)
  next
    case Finish
    have bud: "(unat (CurrentPage t) + pagesAdvanced cs) * 2 ^ L < 2 ^ 64"
      using budget Finish unfolding L_def by simp
    have l': "trackerLimit (tracker_step c t) = cp * 2 ^ L"
      using Finish
      by (simp add: finish_def trackerLimit_def closeOpenedRange_def L_def cp_def)
    have nr: "\<not> InRange (tracker_step c t)"
      using Finish by (simp add: finish_def closeOpenedRange_def)
    have "trackerInv (tracker_step c t) (done @ emits c t) []"
      unfolding trackerInv_def l' using nr done_cp idj by (simp add: nonAdjacent_def)
    then show ?thesis
      using na bud Finish
      by (simp add: finish_def L_def closeOpenedRange_def)
  qed
qed

lemma tracker_run_ranges:
  assumes "trackerInv t (releasedRanges (Recorder t)) cur"
    and "(unat (CurrentPage t) + pagesAdvanced cs) * 2 ^ unat (TPageSizeLog t) < 2 ^ 64"
  shows "increasingDisjoint (releasedRanges (Recorder (tracker_run cs t)))
       \<and> list_all nonAdjacent (segments isSkipOrFinish cs t cur)"
  using assms
proof (induction cs arbitrary: t cur)
  case Nil
  then show ?case by (simp add: trackerInv_def)
next
  case (Cons c cs)
  note st = trackerInv_step [OF Cons.prems(1) Cons.prems(2)]
  have inv': "trackerInv (tracker_step c t) (releasedRanges (Recorder (tracker_step c t)))
                (if isSkipOrFinish c then [] else cur @ emits c t)"
    using st by (simp add: tracker_step_emits)
  have bud': "(unat (CurrentPage (tracker_step c t)) + pagesAdvanced cs)
                * 2 ^ unat (TPageSizeLog (tracker_step c t)) < 2 ^ 64"
    using st by blast
  show ?case
    using Cons.IH [OF inv' bud'] st by (cases "isSkipOrFinish c") simp_all
qed

text \<open>
  C7 as stated counts only \<open>skipPages\<close> as what may separate two touching ranges. A
  \<open>finish\<close> in the middle of a run closes the open range too, and the next page
  processed opens a range that touches it: after \<open>processNextPage(true)\<close>, \<open>finish()\<close>,
  \<open>processNextPage(true)\<close>, \<open>finish()\<close> with pages of 4096 bytes the tracker has emitted
  \<open>[0, 4096)\<close> and \<open>[4096, 8192)\<close> with no \<open>skipPages\<close> between them.
\<close>

theorem tracker_finish_counterexample:
  "segments isSkipPages [ProcessNextPage True, Finish, ProcessNextPage True, Finish]
      (FreePagesRangeTracker_new
         \<lparr>PageSizeCached = 4096, tryLock = True, mapSucceeds = (\<lambda>_. True)\<rparr>
         (ReleaseRecorder_new 0)) []
     = [[(0, 4096), (4096, 8192)]]
   \<and> \<not> list_all nonAdjacent
        (segments isSkipPages [ProcessNextPage True, Finish, ProcessNextPage True, Finish]
           (FreePagesRangeTracker_new
              \<lparr>PageSizeCached = 4096, tryLock = True, mapSucceeds = (\<lambda>_. True)\<rparr>
              (ReleaseRecorder_new 0)) [])"
  by (simp add: tracker_eval)

text \<open>
  C7, amended. For every sequence of \<open>processNextPage\<close>, \<open>skipPages\<close> and \<open>finish\<close>
  calls on a fresh tracker, the emitted ranges are not empty, strictly increasing in
  their start and pairwise disjoint, and no two ranges touch unless a \<open>skipPages\<close> or a
  \<open>finish\<close> call lies between them. The pages the run moves over, in bytes, stay below
  \<open>2 ^ 64\<close>, so that \<open>CurrentPage << PageSizeLog\<close> does not wrap.
\<close>

theorem tracker_emitted_ranges:
  assumes "pagesAdvanced cs * 2 ^ unat (getLog2 (PageSizeCached pf)) < 2 ^ 64"
  shows "increasingDisjoint
           (releasedRanges (Recorder (tracker_run cs
              (FreePagesRangeTracker_new pf (ReleaseRecorder_new B)))))
       \<and> list_all nonAdjacent
           (segments isSkipOrFinish cs (FreePagesRangeTracker_new pf (ReleaseRecorder_new B)) [])"
proof -
  let ?t = "FreePagesRangeTracker_new pf (ReleaseRecorder_new B)"
  have r: "releasedRanges (Recorder ?t) = []"
    by (simp add: FreePagesRangeTracker_new_def ReleaseRecorder_new_def releasedRanges_def)
  have inv: "trackerInv ?t (releasedRanges (Recorder ?t)) []"
    unfolding r
    by (simp add: trackerInv_def increasingDisjoint_def nonAdjacent_def
        FreePagesRangeTracker_new_def)
  have bud: "(unat (CurrentPage ?t) + pagesAdvanced cs) * 2 ^ unat (TPageSizeLog ?t) < 2 ^ 64"
    using assms by (simp add: FreePagesRangeTracker_new_def)
  show ?thesis by (rule tracker_run_ranges [OF inv bud])
qed

theorem tracker_emitted_ranges_witness:
  "releasedRanges (Recorder (tracker_run
       [ProcessNextPage True, ProcessNextPage False, ProcessNextPage True, SkipPages 2,
        ProcessNextPage True, Finish]
       (FreePagesRangeTracker_new
          \<lparr>PageSizeCached = 4096, tryLock = True, mapSucceeds = (\<lambda>_. True)\<rparr>
          (ReleaseRecorder_new 0))))
     = [(0, 4096), (8192, 12288), (20480, 24576)]
   \<and> increasingDisjoint
       (releasedRanges (Recorder (tracker_run
          [ProcessNextPage True, ProcessNextPage False, ProcessNextPage True, SkipPages 2,
           ProcessNextPage True, Finish]
          (FreePagesRangeTracker_new
             \<lparr>PageSizeCached = 4096, tryLock = True, mapSucceeds = (\<lambda>_. True)\<rparr>
             (ReleaseRecorder_new 0)))))
   \<and> list_all nonAdjacent
       (segments isSkipOrFinish
          [ProcessNextPage True, ProcessNextPage False, ProcessNextPage True, SkipPages 2,
           ProcessNextPage True, Finish]
          (FreePagesRangeTracker_new
             \<lparr>PageSizeCached = 4096, tryLock = True, mapSucceeds = (\<lambda>_. True)\<rparr>
             (ReleaseRecorder_new 0)) [])"
proof -
  have h: "pagesAdvanced
             [ProcessNextPage True, ProcessNextPage False, ProcessNextPage True, SkipPages 2,
              ProcessNextPage True, Finish]
           * 2 ^ unat (getLog2 (PageSizeCached
               \<lparr>PageSizeCached = 4096, tryLock = True, mapSucceeds = (\<lambda>_. True)\<rparr>))
           < 2 ^ 64"
    by (simp add: getLog2_4096)
  have e: "releasedRanges (Recorder (tracker_run
       [ProcessNextPage True, ProcessNextPage False, ProcessNextPage True, SkipPages 2,
        ProcessNextPage True, Finish]
       (FreePagesRangeTracker_new
          \<lparr>PageSizeCached = 4096, tryLock = True, mapSucceeds = (\<lambda>_. True)\<rparr>
          (ReleaseRecorder_new 0))))
     = [(0, 4096), (8192, 12288), (20480, 24576)]"
    by (simp add: tracker_eval)
  show ?thesis
    using tracker_emitted_ranges [OF h, of 0] e by simp
qed

section \<open>RegionPageMap: packed counters\<close>

subsection \<open>A field of a word\<close>

lemma field_or_same:
  "off + S \<le> 64 \<Longrightarrow> drop_bit off (w OR push_bit off (mask S)) AND mask S = (mask S :: uptr)"
  by (rule bit_eqI) (auto simp: bit_simps)

lemma field_or_other:
  "off + S \<le> off' \<or> off' + S \<le> off \<Longrightarrow>
   drop_bit off' (w OR push_bit off (mask S)) AND mask S = drop_bit off' (w :: uptr) AND mask S"
  by (rule bit_eqI) (auto simp: bit_simps)

lemma word_split_field:
  "(w :: uptr) = (w AND NOT (push_bit off (mask S))) + push_bit off (drop_bit off w AND mask S)"
proof -
  have d: "(w AND NOT (push_bit off (mask S))) AND push_bit off (drop_bit off w AND mask S) = 0"
    by (rule bit_eqI) (auto simp: bit_simps)
  have "w = (w AND NOT (push_bit off (mask S))) OR push_bit off (drop_bit off w AND mask S)"
    by (rule bit_eqI) (auto simp: bit_simps)
  then show ?thesis using disjunctive_add_eq_or [OF d] by simp
qed

lemma field_put:
  assumes v: "v AND mask S = (v :: uptr)"
  shows "(w AND NOT (push_bit off (mask S))) + push_bit off v
           = (w AND NOT (push_bit off (mask S))) OR push_bit off v"
proof -
  have b: "\<And>n. bit v n \<Longrightarrow> n < S"
    by (metis v bit_and_iff bit_mask_iff)
  have d: "(w AND NOT (push_bit off (mask S))) AND push_bit off v = 0"
    by (rule bit_eqI) (auto simp: bit_simps dest: b)
  show ?thesis by (rule disjunctive_add_eq_or [OF d])
qed

lemma field_put_same:
  assumes v: "v AND mask S = (v :: uptr)" and "off + S \<le> 64"
  shows "drop_bit off ((w AND NOT (push_bit off (mask S))) OR push_bit off v) AND mask S = v"
proof -
  have b: "\<And>n. bit v n \<Longrightarrow> n < S"
    by (metis v bit_and_iff bit_mask_iff)
  have l: "\<And>(x :: uptr) n. bit x n \<Longrightarrow> n < 64"
    by (auto dest: bit_imp_le_length)
  show ?thesis
    using assms(2) by (intro bit_eqI) (auto simp: bit_simps dest: b l)
qed

lemma field_put_other:
  assumes v: "v AND mask S = (v :: uptr)" and "off + S \<le> off' \<or> off' + S \<le> off"
  shows "drop_bit off' ((w AND NOT (push_bit off (mask S))) OR push_bit off v) AND mask S
           = drop_bit off' w AND mask S"
proof -
  have b: "\<And>n. bit v n \<Longrightarrow> n < S"
    by (metis v bit_and_iff bit_mask_iff)
  have l: "\<And>(x :: uptr) n. bit x n \<Longrightarrow> n < 64"
    by (auto dest: bit_imp_le_length)
  show ?thesis
    using assms(2) by (intro bit_eqI) (auto simp: bit_simps dest: b l)
qed

lemma fits_mask:
  assumes "unat (v :: uptr) < 2 ^ S"
  shows "v AND mask S = v"
proof -
  have "unat (take_bit S v) = take_bit S (unat v)" by (rule unsigned_take_bit_eq)
  also have "\<dots> = unat v mod 2 ^ S" by (rule take_bit_eq_mod)
  finally have "unat (take_bit S v) = unat v" using assms by simp
  then have "take_bit S v = v" by (simp add: word_unat_eq_iff)
  then show ?thesis by (simp add: take_bit_eq_mask)
qed

lemma field_bound: "unat ((x :: uptr) AND mask S) < 2 ^ S"
proof -
  have "unat (take_bit S x) = take_bit S (unat x)" by (rule unsigned_take_bit_eq)
  also have "\<dots> = unat x mod 2 ^ S" by (rule take_bit_eq_mod)
  finally have "unat (take_bit S x) < 2 ^ S" by simp
  then show ?thesis by (simp add: take_bit_eq_mask)
qed

lemma field_add:
  assumes S: "S \<le> 64"
    and nov: "unat (drop_bit off w AND mask S) + unat N < 2 ^ S"
  shows "((drop_bit off w AND mask S) + N) AND mask S = (drop_bit off w AND mask S) + (N :: uptr)"
    and "w + push_bit off N
           = (w AND NOT (push_bit off (mask S))) OR push_bit off ((drop_bit off w AND mask S) + N)"
proof -
  let ?f = "drop_bit off w AND mask S"
  have "(2 :: nat) ^ S \<le> 2 ^ 64" using S by (intro power_increasing) auto
  then have "unat ?f + unat N < 2 ^ 64" using nov by linarith
  then have "unat (?f + N) = unat ?f + unat N" by (simp add: unat_word_ariths)
  then have "unat (?f + N) < 2 ^ S" using nov by simp
  then show v: "(?f + N) AND mask S = ?f + N" by (rule fits_mask)
  have "w + push_bit off N
          = (w AND NOT (push_bit off (mask S))) + (push_bit off ?f + push_bit off N)"
    using word_split_field [of w off S] by (simp add: add.assoc)
  also have "\<dots> = (w AND NOT (push_bit off (mask S))) + push_bit off (?f + N)"
    by (simp add: push_bit_add)
  also have "\<dots> = (w AND NOT (push_bit off (mask S))) OR push_bit off (?f + N)"
    by (rule field_put [OF v])
  finally show "w + push_bit off N
           = (w AND NOT (push_bit off (mask S))) OR push_bit off (?f + N)" .
qed

lemma field_add_same:
  assumes "off + S \<le> 64"
    and "unat (drop_bit off w AND mask S) + unat N < 2 ^ S"
  shows "drop_bit off (w + push_bit off N) AND mask S = (drop_bit off w AND mask S) + (N :: uptr)"
proof -
  have S: "S \<le> 64" using assms(1) by simp
  show ?thesis
    unfolding field_add(2) [OF S assms(2)]
    by (rule field_put_same [OF field_add(1) [OF S assms(2)] assms(1)])
qed

lemma field_add_other:
  assumes "S \<le> 64"
    and "unat (drop_bit off w AND mask S) + unat N < 2 ^ S"
    and "off + S \<le> off' \<or> off' + S \<le> off"
  shows "drop_bit off' (w + push_bit off (N :: uptr)) AND mask S = drop_bit off' w AND mask S"
  unfolding field_add(2) [OF assms(1) assms(2)]
  by (rule field_put_other [OF field_add(1) [OF assms(1) assms(2)] assms(3)])

subsection \<open>Where a counter lives\<close>

lemma wf_bits:
  assumes "wfMap m"
  shows "unat (PackingRatioLog m) \<le> 6" and "unat (CounterSizeBitsLog m) \<le> 6"
    and "(2 :: nat) ^ unat (PackingRatioLog m) * 2 ^ unat (CounterSizeBitsLog m) = 64"
    and "(2 :: nat) ^ unat (CounterSizeBitsLog m) \<le> 64"
proof -
  have e: "unat (PackingRatioLog m) + unat (CounterSizeBitsLog m) = 6"
    using assms by (simp add: wfMap_def)
  show "unat (PackingRatioLog m) \<le> 6" and c: "unat (CounterSizeBitsLog m) \<le> 6"
    using e by simp_all
  have "(2 :: nat) ^ unat (PackingRatioLog m) * 2 ^ unat (CounterSizeBitsLog m)
          = 2 ^ (unat (PackingRatioLog m) + unat (CounterSizeBitsLog m))"
    by (simp add: power_add)
  then show "(2 :: nat) ^ unat (PackingRatioLog m) * 2 ^ unat (CounterSizeBitsLog m) = 64"
    using e by simp
  have "(2 :: nat) ^ unat (CounterSizeBitsLog m) \<le> 2 ^ 6"
    using c by (intro power_increasing) auto
  then show "(2 :: nat) ^ unat (CounterSizeBitsLog m) \<le> 64" by simp
qed

lemma unat_and_mask: "unat ((x :: uptr) AND mask n) = unat x mod 2 ^ n"
proof -
  have "unat (take_bit n x) = take_bit n (unat x)" by (rule unsigned_take_bit_eq)
  also have "\<dots> = unat x mod 2 ^ n" by (rule take_bit_eq_mod)
  finally show ?thesis by (simp add: take_bit_eq_mask)
qed

lemma bitOffset_unat:
  assumes "wfMap m"
  shows "unat (bitOffset m I)
           = (unat I mod 2 ^ unat (PackingRatioLog m)) * 2 ^ unat (CounterSizeBitsLog m)"
    and "unat (bitOffset m I) + 2 ^ unat (CounterSizeBitsLog m) \<le> 64"
proof -
  let ?P = "unat (PackingRatioLog m)" and ?L = "unat (CounterSizeBitsLog m)"
  let ?k = "unat I mod 2 ^ ?P"
  have "Suc ?k \<le> 2 ^ ?P" by (simp add: Suc_leI)
  then have "Suc ?k * 2 ^ ?L \<le> 2 ^ ?P * 2 ^ ?L"
    by (rule mult_le_mono1)
  then have le: "?k * 2 ^ ?L + 2 ^ ?L \<le> 64"
    using wf_bits(3) [OF assms] by simp
  have b: "BitOffsetMask m = mask ?P" using assms by (simp add: wfMap_def)
  have u: "unat (I AND BitOffsetMask m) = ?k" unfolding b by (rule unat_and_mask)
  have "unat (I AND BitOffsetMask m) * 2 ^ ?L < 2 ^ 64" using le u by simp
  then have "unat (push_bit ?L (I AND BitOffsetMask m)) = unat (I AND BitOffsetMask m) * 2 ^ ?L"
    by (rule unat_push_bit_nowrap)
  then show e: "unat (bitOffset m I) = ?k * 2 ^ ?L"
    unfolding bitOffset_def u .
  show "unat (bitOffset m I) + 2 ^ ?L \<le> 64" unfolding e by (rule le)
qed

lemma wordIndex_unat:
  assumes "wfMap m" and "validIndex m Region I"
  shows "unat (wordIndex m Region I)
           = unat Region * unat (SizePerRegion m) + unat I div 2 ^ unat (PackingRatioLog m)"
    and "unat I div 2 ^ unat (PackingRatioLog m) < unat (SizePerRegion m)"
proof -
  let ?P = "unat (PackingRatioLog m)" and ?spr = "unat (SizePerRegion m)"
  have r: "unat Region < unat (Regions m)" and i: "unat I < unat (NumCounters m)"
    using assms(2) by (simp_all add: validIndex_def word_less_nat_alt)
  have n: "unat (NumCounters m) \<le> ?spr * 2 ^ ?P"
    and b: "unat (Regions m) * ?spr < 2 ^ 64"
    using assms(1) by (simp_all add: wfMap_def)
  have "unat I < ?spr * 2 ^ ?P" using i n by linarith
  then show a: "unat I div 2 ^ ?P < ?spr"
    by (simp add: less_mult_imp_div_less)
  have "Suc (unat Region) \<le> unat (Regions m)" using r by simp
  then have "Suc (unat Region) * ?spr \<le> unat (Regions m) * ?spr"
    by (rule mult_le_mono1)
  then have lt: "unat Region * ?spr + unat I div 2 ^ ?P < 2 ^ 64"
    using a b by simp
  then have "unat Region * ?spr < 2 ^ 64" by simp
  then have m1: "unat (Region * SizePerRegion m) = unat Region * ?spr"
    by (rule unat_mult_nowrap)
  have "unat (drop_bit ?P I) = drop_bit ?P (unat I)" by (rule unat_drop_bit_eq)
  also have "\<dots> = unat I div 2 ^ ?P" by (rule drop_bit_eq_div)
  finally have d: "unat (drop_bit ?P I) = unat I div 2 ^ ?P" .
  have "unat (Region * SizePerRegion m) + unat (drop_bit ?P I) < 2 ^ 64"
    using lt m1 d by simp
  then have "unat (Region * SizePerRegion m + drop_bit ?P I)
               = unat (Region * SizePerRegion m) + unat (drop_bit ?P I)"
    by (rule unat_add_nowrap)
  then show "unat (wordIndex m Region I) = unat Region * ?spr + unat I div 2 ^ ?P"
    unfolding wordIndex_def using m1 d by simp
qed

lemma counters_apart:
  assumes wf: "wfMap m" and v: "validIndex m Region I" and v': "validIndex m Region' I'"
    and ne: "(Region, I) \<noteq> (Region', I')"
    and same: "wordIndex m Region I = wordIndex m Region' I'"
  shows "unat (bitOffset m I) + 2 ^ unat (CounterSizeBitsLog m) \<le> unat (bitOffset m I')
       \<or> unat (bitOffset m I') + 2 ^ unat (CounterSizeBitsLog m) \<le> unat (bitOffset m I)"
proof -
  let ?P = "unat (PackingRatioLog m)" and ?spr = "unat (SizePerRegion m)"
  let ?L = "unat (CounterSizeBitsLog m)"
  let ?a = "unat I div 2 ^ ?P" and ?a' = "unat I' div 2 ^ ?P"
  have e: "unat Region * ?spr + ?a = unat Region' * ?spr + ?a'"
    using same wordIndex_unat(1) [OF wf v] wordIndex_unat(1) [OF wf v'] by simp
  have a: "?a < ?spr" and a': "?a' < ?spr"
    using wordIndex_unat(2) [OF wf v] wordIndex_unat(2) [OF wf v'] by simp_all
  have "(unat Region * ?spr + ?a) div ?spr = unat Region" using a by simp
  moreover have "(unat Region' * ?spr + ?a') div ?spr = unat Region'" using a' by simp
  ultimately have R: "unat Region = unat Region'" using e by simp
  then have A: "?a = ?a'" using e by simp
  have "Region = Region'" using R by (simp add: word_unat_eq_iff)
  then have "I \<noteq> I'" using ne by simp
  then have "unat I \<noteq> unat I'" by (simp add: word_unat_eq_iff)
  then have k: "unat I mod 2 ^ ?P \<noteq> unat I' mod 2 ^ ?P"
    using A by (metis div_mult_mod_eq)
  have o: "unat (bitOffset m I) = (unat I mod 2 ^ ?P) * 2 ^ ?L"
    and o': "unat (bitOffset m I') = (unat I' mod 2 ^ ?P) * 2 ^ ?L"
    using bitOffset_unat(1) [OF wf] by simp_all
  show ?thesis
  proof (cases "unat I mod 2 ^ ?P < unat I' mod 2 ^ ?P")
    case True
    then have "Suc (unat I mod 2 ^ ?P) \<le> unat I' mod 2 ^ ?P" by simp
    then have "Suc (unat I mod 2 ^ ?P) * 2 ^ ?L \<le> (unat I' mod 2 ^ ?P) * 2 ^ ?L"
      by (rule mult_le_mono1)
    then show ?thesis unfolding o o' by simp
  next
    case False
    then have "unat I' mod 2 ^ ?P < unat I mod 2 ^ ?P" using k by simp
    then have "Suc (unat I' mod 2 ^ ?P) \<le> unat I mod 2 ^ ?P" by simp
    then have "Suc (unat I' mod 2 ^ ?P) * 2 ^ ?L \<le> (unat I mod 2 ^ ?P) * 2 ^ ?L"
      by (rule mult_le_mono1)
    then show ?thesis unfolding o o' by simp
  qed
qed

subsection \<open>Reading a counter after a write\<close>

lemma unat_mask_uptr: "S \<le> 64 \<Longrightarrow> unat (mask S :: uptr) = 2 ^ S - 1"
proof -
  assume S: "S \<le> 64"
  have "uint (mask S :: uptr) = mask S"
    using uint_mask_eq [of S, where 'a=64] S by (simp add: min_def)
  then have "int (unat (mask S :: uptr)) = 2 ^ S - 1"
    by (simp add: mask_eq_exp_minus_1)
  then show ?thesis
    by (metis (mono_tags) nat_int int_ops(2) of_nat_numeral of_nat_power nat_diff_distrib'
        nat_one_as_int of_nat_0_le_iff nat_power_eq zero_le_numeral nat_1)
qed

lemma get_le_mask: "get m Region I \<le> CounterMask m"
  unfolding get_def by (rule word_and_le1)

lemma wf_mask_unat:
  assumes "wfMap m"
  shows "unat (CounterMask m) = 2 ^ (2 ^ unat (CounterSizeBitsLog m)) - 1"
proof -
  have "CounterMask m = mask (2 ^ unat (CounterSizeBitsLog m))"
    using assms by (simp add: wfMap_def)
  then show ?thesis using unat_mask_uptr [OF wf_bits(4) [OF assms]] by simp
qed

lemma write_fields [simp]:
  "Regions (incN m Region I N) = Regions m"
  "NumCounters (incN m Region I N) = NumCounters m"
  "CounterSizeBitsLog (incN m Region I N) = CounterSizeBitsLog m"
  "CounterMask (incN m Region I N) = CounterMask m"
  "PackingRatioLog (incN m Region I N) = PackingRatioLog m"
  "BitOffsetMask (incN m Region I N) = BitOffsetMask m"
  "SizePerRegion (incN m Region I N) = SizePerRegion m"
  "BufferSize (incN m Region I N) = BufferSize m"
  "Buffer (incN m Region I N) = Buffer m"
  "Regions (setAsAllCounted m Region I) = Regions m"
  "NumCounters (setAsAllCounted m Region I) = NumCounters m"
  "CounterSizeBitsLog (setAsAllCounted m Region I) = CounterSizeBitsLog m"
  "CounterMask (setAsAllCounted m Region I) = CounterMask m"
  "PackingRatioLog (setAsAllCounted m Region I) = PackingRatioLog m"
  "BitOffsetMask (setAsAllCounted m Region I) = BitOffsetMask m"
  "SizePerRegion (setAsAllCounted m Region I) = SizePerRegion m"
  "BufferSize (setAsAllCounted m Region I) = BufferSize m"
  "Buffer (setAsAllCounted m Region I) = Buffer m"
  by (simp_all add: incN_def setAsAllCounted_def)

lemma incCounter_incN: "incCounter m Region I = incN m Region I 1"
  by (simp add: incCounter_def incN_def)

lemma write_wf [simp]:
  "wfMap (incN m Region I N) = wfMap m"
  "wfMap (setAsAllCounted m Region I) = wfMap m"
  "validIndex (incN m Region I N) R J = validIndex m R J"
  "validIndex (setAsAllCounted m Region I) R J = validIndex m R J"
  by (simp_all add: wfMap_def validIndex_def)

lemma write_index [simp]:
  "wordIndex (incN m Region I N) R J = wordIndex m R J"
  "wordIndex (setAsAllCounted m Region I) R J = wordIndex m R J"
  "bitOffset (incN m Region I N) J = bitOffset m J"
  "bitOffset (setAsAllCounted m Region I) J = bitOffset m J"
  by (simp_all add: wordIndex_def bitOffset_def)

lemma get_write:
  "get (m\<lparr>Words := W\<rparr>) Region I
     = drop_bit (unat (bitOffset m I)) (W (wordIndex m Region I)) AND CounterMask m"
  by (simp add: get_def wordIndex_def bitOffset_def)

lemma get_incN:
  assumes wf: "wfMap m" and v: "validIndex m Region I" and v': "validIndex m Region' I'"
    and nov: "unat (get m Region I) + unat N \<le> unat (CounterMask m)"
  shows "get (incN m Region I N) Region' I'
           = (if Region' = Region \<and> I' = I then get m Region I + N else get m Region' I')"
proof -
  let ?S = "2 ^ unat (CounterSizeBitsLog m) :: nat"
  let ?off = "unat (bitOffset m I)" and ?off' = "unat (bitOffset m I')"
  let ?w = "Words m (wordIndex m Region I)"
  have cm: "CounterMask m = mask ?S" using wf by (simp add: wfMap_def)
  have S: "?S \<le> 64" by (rule wf_bits(4) [OF wf])
  have um: "unat (mask ?S :: uptr) = 2 ^ ?S - 1" by (rule unat_mask_uptr [OF S])
  have p: "0 < (2 :: nat) ^ ?S" by simp
  have "unat (drop_bit ?off ?w AND mask ?S) + unat N \<le> unat (mask ?S :: uptr)"
    using nov unfolding get_def cm .
  then have nov': "unat (drop_bit ?off ?w AND mask ?S) + unat N < 2 ^ ?S"
    using um p by linarith
  have fit: "?off + ?S \<le> 64" by (rule bitOffset_unat(2) [OF wf])
  show ?thesis
  proof (cases "wordIndex m Region' I' = wordIndex m Region I")
    case False
    then have "\<not> (Region' = Region \<and> I' = I)" by auto
    then show ?thesis using False unfolding incN_def get_write by (auto simp: get_def)
  next
    case True
    have g: "get (incN m Region I N) Region' I'
               = drop_bit ?off' (?w + push_bit ?off N) AND mask ?S"
      unfolding incN_def get_write True cm by (simp only: fun_upd_same)
    have h: "get m Region' I' = drop_bit ?off' ?w AND mask ?S"
      unfolding get_def True cm ..
    show ?thesis
    proof (cases "Region' = Region \<and> I' = I")
      case same: True
      have "drop_bit ?off (?w + push_bit ?off N) AND mask ?S = (drop_bit ?off ?w AND mask ?S) + N"
        by (rule field_add_same [OF fit nov'])
      then show ?thesis using same g h by simp
    next
      case other: False
      then have ne: "(Region, I) \<noteq> (Region', I')" by auto
      have ap: "?off + ?S \<le> ?off' \<or> ?off' + ?S \<le> ?off"
        by (rule counters_apart [OF wf v v' ne True [symmetric]])
      have "drop_bit ?off' (?w + push_bit ?off N) AND mask ?S = drop_bit ?off' ?w AND mask ?S"
        by (rule field_add_other [OF S nov' ap])
      then show ?thesis by (simp only: g h other if_False)
    qed
  qed
qed

lemma get_setAsAllCounted:
  assumes wf: "wfMap m" and v: "validIndex m Region I" and v': "validIndex m Region' I'"
  shows "get (setAsAllCounted m Region I) Region' I'
           = (if Region' = Region \<and> I' = I then CounterMask m else get m Region' I')"
proof -
  let ?S = "2 ^ unat (CounterSizeBitsLog m) :: nat"
  let ?off = "unat (bitOffset m I)" and ?off' = "unat (bitOffset m I')"
  let ?w = "Words m (wordIndex m Region I)"
  have cm: "CounterMask m = mask ?S" using wf by (simp add: wfMap_def)
  have fit: "?off + ?S \<le> 64" by (rule bitOffset_unat(2) [OF wf])
  show ?thesis
  proof (cases "wordIndex m Region' I' = wordIndex m Region I")
    case False
    then have "\<not> (Region' = Region \<and> I' = I)" by auto
    then show ?thesis using False unfolding setAsAllCounted_def get_write by (auto simp: get_def)
  next
    case True
    have g: "get (setAsAllCounted m Region I) Region' I'
               = drop_bit ?off' (?w OR push_bit ?off (mask ?S)) AND mask ?S"
      unfolding setAsAllCounted_def get_write True cm by (simp only: fun_upd_same)
    have h: "get m Region' I' = drop_bit ?off' ?w AND mask ?S"
      unfolding get_def True cm ..
    show ?thesis
    proof (cases "Region' = Region \<and> I' = I")
      case same: True
      have f: "drop_bit ?off (?w OR push_bit ?off (mask ?S)) AND mask ?S = mask ?S"
        by (rule field_or_same [OF fit])
      have "get (setAsAllCounted m Region I) Region I = CounterMask m"
        using g f same cm by simp
      then show ?thesis using same by simp
    next
      case other: False
      then have ne: "(Region, I) \<noteq> (Region', I')" by auto
      have ap: "?off + ?S \<le> ?off' \<or> ?off' + ?S \<le> ?off"
        by (rule counters_apart [OF wf v v' ne True [symmetric]])
      have "drop_bit ?off' (?w OR push_bit ?off (mask ?S)) AND mask ?S = drop_bit ?off' ?w AND mask ?S"
        by (rule field_or_other [OF ap])
      then show ?thesis by (simp only: g h other if_False)
    qed
  qed
qed

lemma get_incCounter:
  assumes wf: "wfMap m" and v: "validIndex m Region I" and v': "validIndex m Region' I'"
    and lt: "get m Region I < CounterMask m"
  shows "get (incCounter m Region I) Region' I'
           = (if Region' = Region \<and> I' = I then get m Region I + 1 else get m Region' I')"
proof -
  have "unat (get m Region I) < unat (CounterMask m)" using lt by (simp add: word_less_nat_alt)
  then have "unat (get m Region I) + unat (1 :: uptr) \<le> unat (CounterMask m)" by simp
  then show ?thesis unfolding incCounter_incN by (rule get_incN [OF wf v v'])
qed

subsection \<open>The range calls\<close>

lemma uptr_succ_le: "(I :: uptr) < Top \<Longrightarrow> (I + 1 \<le> J) = (I < J)"
  by (simp add: word_le_nat_alt word_less_nat_alt uptr_suc Suc_le_eq)

lemma rangeIndices_all:
  "list_all P (rangeIndices From Top) = (\<forall>I. From \<le> I \<and> I < Top \<longrightarrow> P I)"
proof
  assume a: "list_all P (rangeIndices From Top)"
  show "\<forall>I. From \<le> I \<and> I < Top \<longrightarrow> P I"
  proof (intro allI impI)
    fix I assume "From \<le> I \<and> I < Top"
    then have "unat I \<in> set [unat From ..< unat Top]"
      by (simp add: word_le_nat_alt word_less_nat_alt)
    then have "of_nat (unat I) \<in> set (rangeIndices From Top)"
      unfolding rangeIndices_def by (metis image_eqI set_map)
    then show "P I" using a by (simp add: list_all_iff)
  qed
next
  assume a: "\<forall>I. From \<le> I \<and> I < Top \<longrightarrow> P I"
  have "\<And>k. unat From \<le> k \<Longrightarrow> k < unat Top \<Longrightarrow> P (of_nat k)"
  proof -
    fix k assume k: "unat From \<le> k" "k < unat Top"
    have "k < 2 ^ 64" using k(2) unat_lt_2p64 [of Top] by linarith
    then have "unat (of_nat k :: uptr) = k" by (rule unat_of_nat_uptr)
    then have "From \<le> of_nat k \<and> of_nat k < Top"
      using k by (simp add: word_le_nat_alt word_less_nat_alt)
    then show "P (of_nat k)" using a by blast
  qed
  then show "list_all P (rangeIndices From Top)"
    by (auto simp: rangeIndices_def list_all_iff)
qed

lemma incRange_loop_fields [simp]:
  "Regions (incRange_loop m Region I Top) = Regions m"
  "NumCounters (incRange_loop m Region I Top) = NumCounters m"
  "CounterMask (incRange_loop m Region I Top) = CounterMask m"
  "wfMap (incRange_loop m Region I Top) = wfMap m"
  "validIndex (incRange_loop m Region I Top) R J = validIndex m R J"
  "Buffer (incRange_loop m Region I Top) = Buffer m"
  by (induction m Region I Top rule: incRange_loop.induct;
      subst incRange_loop.simps; simp add: incCounter_incN)+

lemma setRange_loop_fields [simp]:
  "Regions (setAsAllCountedRange_loop m Region I Top) = Regions m"
  "NumCounters (setAsAllCountedRange_loop m Region I Top) = NumCounters m"
  "CounterMask (setAsAllCountedRange_loop m Region I Top) = CounterMask m"
  "wfMap (setAsAllCountedRange_loop m Region I Top) = wfMap m"
  "validIndex (setAsAllCountedRange_loop m Region I Top) R J = validIndex m R J"
  "Buffer (setAsAllCountedRange_loop m Region I Top) = Buffer m"
  by (induction m Region I Top rule: setAsAllCountedRange_loop.induct;
      subst setAsAllCountedRange_loop.simps; simp)+

lemma get_incRange_loop:
  assumes "wfMap m" and "Region < Regions m" and "Top \<le> NumCounters m"
    and "\<forall>I. From \<le> I \<and> I < Top \<longrightarrow> get m Region I < CounterMask m"
    and "validIndex m Region' I'"
  shows "get (incRange_loop m Region From Top) Region' I'
           = (if Region' = Region \<and> From \<le> I' \<and> I' < Top then get m Region' I' + 1
              else get m Region' I')"
  using assms
proof (induction m Region From Top rule: incRange_loop.induct)
  case (1 m Region I Top)
  show ?case
  proof (cases "I < Top")
    case False
    then show ?thesis by (subst incRange_loop.simps) auto
  next
    case True
    let ?m1 = "incCounter m Region I"
    have v: "validIndex m Region I"
      using True "1.prems"(2,3) by (auto simp: validIndex_def)
    have lt: "get m Region I < CounterMask m" using True "1.prems"(4) by auto
    have g1: "\<And>R J. validIndex m R J \<Longrightarrow>
        get ?m1 R J = (if R = Region \<and> J = I then get m Region I + 1 else get m R J)"
      by (rule get_incCounter [OF "1.prems"(1) v _ lt])
    have pre: "\<forall>J. I + 1 \<le> J \<and> J < Top \<longrightarrow> get ?m1 Region J < CounterMask ?m1"
    proof (intro allI impI)
      fix J assume J: "I + 1 \<le> J \<and> J < Top"
      then have IJ: "I < J" using uptr_succ_le [OF True] by simp
      then have "validIndex m Region J"
        using J "1.prems"(2,3) by (auto simp: validIndex_def)
      then have "get ?m1 Region J = get m Region J" using g1 IJ by auto
      moreover have "get m Region J < CounterMask m" using "1.prems"(4) J IJ by auto
      ultimately show "get ?m1 Region J < CounterMask ?m1" by (simp add: incCounter_incN)
    qed
    have ih: "get (incRange_loop ?m1 Region (I + 1) Top) Region' I'
           = (if Region' = Region \<and> I + 1 \<le> I' \<and> I' < Top then get ?m1 Region' I' + 1
              else get ?m1 Region' I')"
      using "1.IH" [OF True] "1.prems" pre by (simp add: incCounter_incN)
    have e: "incRange_loop m Region I Top = incRange_loop ?m1 Region (I + 1) Top"
      using True by (subst incRange_loop.simps) simp
    show ?thesis
      unfolding e ih g1 [OF "1.prems"(5)] uptr_succ_le [OF True]
      using True by auto
  qed
qed

lemma get_setRange_loop:
  assumes "wfMap m" and "Region < Regions m" and "Top \<le> NumCounters m"
    and "validIndex m Region' I'"
  shows "get (setAsAllCountedRange_loop m Region From Top) Region' I'
           = (if Region' = Region \<and> From \<le> I' \<and> I' < Top then CounterMask m
              else get m Region' I')"
  using assms
proof (induction m Region From Top rule: setAsAllCountedRange_loop.induct)
  case (1 m Region I Top)
  show ?case
  proof (cases "I < Top")
    case False
    then show ?thesis by (subst setAsAllCountedRange_loop.simps) auto
  next
    case True
    let ?m1 = "setAsAllCounted m Region I"
    have v: "validIndex m Region I"
      using True "1.prems"(2,3) by (auto simp: validIndex_def)
    have g1: "\<And>R J. validIndex m R J \<Longrightarrow>
        get ?m1 R J = (if R = Region \<and> J = I then CounterMask m else get m R J)"
      by (rule get_setAsAllCounted [OF "1.prems"(1) v])
    have ih: "get (setAsAllCountedRange_loop ?m1 Region (I + 1) Top) Region' I'
           = (if Region' = Region \<and> I + 1 \<le> I' \<and> I' < Top then CounterMask ?m1
              else get ?m1 Region' I')"
      using "1.IH" [OF True] "1.prems" by simp
    have e: "setAsAllCountedRange_loop m Region I Top
               = setAsAllCountedRange_loop ?m1 Region (I + 1) Top"
      using True by (subst setAsAllCountedRange_loop.simps) simp
    show ?thesis
      unfolding e ih g1 [OF "1.prems"(4)] uptr_succ_le [OF True]
      using True by auto
  qed
qed

lemma MinU_le: "MinU A B \<le> B"
  by (auto simp: MinU_def)

subsection \<open>The geometry reset computes\<close>

lemma bit_length_bound: "n < 2 ^ k \<Longrightarrow> bit_length n \<le> k"
proof (induction k arbitrary: n)
  case 0
  then show ?case by (subst bit_length.simps) simp
next
  case (Suc k)
  show ?case
  proof (cases "n = 0")
    case True
    then show ?thesis by (subst bit_length.simps) simp
  next
    case False
    have "n div 2 < 2 ^ k" using Suc.prems by simp
    then have "bit_length (n div 2) \<le> k" by (rule Suc.IH)
    then show ?thesis using False by (subst bit_length.simps) simp
  qed
qed

lemma bit_length_pos: "0 < n \<Longrightarrow> 0 < bit_length n"
  by (subst bit_length.simps) simp

lemma bit_length_covers: "n < 2 ^ bit_length n"
proof (induction n rule: bit_length.induct)
  case (1 n)
  show ?case
  proof (cases "n = 0")
    case True
    then show ?thesis by simp
  next
    case False
    then have "n div 2 < 2 ^ bit_length (n div 2)" using 1 by simp
    then have "n < 2 * 2 ^ bit_length (n div 2)" by linarith
    then show ?thesis using False by (subst bit_length.simps) simp
  qed
qed

lemma counter_size_cases:
  "list_all (\<lambda>n. roundUpPowerOfTwo (of_nat n) \<in> {1, 2, 4, 8, 16, 32, 64 :: uptr}
                 \<and> of_nat n \<le> roundUpPowerOfTwo (of_nat n))
     [1 ..< 65]"
  by (simp add: upt_rec roundUpPowerOfTwo_def isPowerOfTwo_def getMostSignificantSetBitIndex_def
      bit_length.simps)

lemma counter_geometry_at:
  assumes "L \<le> 6"
  shows "unat (getLog2 (2 ^ L)) = L
       \<and> drop_bit (unat (64 - 2 ^ L :: uptr)) (NOT 0 :: uptr) = mask (2 ^ L)
       \<and> unat (getLog2 (drop_bit L (64 :: uptr))) = 6 - L
       \<and> drop_bit L (64 :: uptr) - 1 = mask (6 - L)"
proof -
  have "L = 0 \<or> L = 1 \<or> L = 2 \<or> L = 3 \<or> L = 4 \<or> L = 5 \<or> L = 6"
    using assms by linarith
  then show ?thesis
    by (elim disjE) (simp_all add: getLog2_def bit_length.simps mask_eq_exp_minus_1 drop_bit_eq_div)
qed

lemma counter_geometry:
  assumes "csb \<in> {1, 2, 4, 8, 16, 32, 64 :: uptr}"
  shows "\<exists>L\<le>6. csb = 2 ^ L"
proof -
  have h: "\<And>k. k \<le> 6 \<Longrightarrow> csb = 2 ^ k \<Longrightarrow> \<exists>L\<le>6. csb = 2 ^ L" by blast
  consider "csb = 1" | "csb = 2" | "csb = 4" | "csb = 8" | "csb = 16" | "csb = 32" | "csb = 64"
    using assms by auto
  then show ?thesis
  proof cases
    case 1 then show ?thesis using h [of 0] by simp
  next
    case 2 then show ?thesis using h [of 1] by simp
  next
    case 3 then show ?thesis using h [of 2] by simp
  next
    case 4 then show ?thesis using h [of 3] by simp
  next
    case 5 then show ?thesis using h [of 4] by simp
  next
    case 6 then show ?thesis using h [of 5] by simp
  next
    case 7 then show ?thesis using h [of 6] by simp
  qed
qed

lemma unat_2p: "L < 64 \<Longrightarrow> unat (2 ^ L :: uptr) = 2 ^ L"
proof -
  assume "L < 64"
  then have "(2 :: nat) ^ L < 2 ^ 64" by (intro power_strict_increasing) auto
  then have "unat (1 :: uptr) * 2 ^ L < 2 ^ 64" by simp
  then have "unat (push_bit L (1 :: uptr)) = unat (1 :: uptr) * 2 ^ L"
    by (rule unat_push_bit_nowrap)
  then show ?thesis by (simp add: push_bit_eq_mult)
qed

text \<open>The number of words per region: the counters of a region, rounded up to whole words.\<close>

lemma words_per_region:
  assumes P: "P \<le> 6" and c: "0 < unat C" "unat C < 2 ^ 61"
  shows "unat (drop_bit P (roundUp C (push_bit P 1))) = (unat C + 2 ^ P - 1) div 2 ^ P"
proof -
  let ?pr = "(2 :: nat) ^ P"
  have pr: "?pr \<le> 64" and pr0: "0 < ?pr"
  proof -
    have "?pr \<le> 2 ^ 6" using P by (intro power_increasing) auto
    then show "?pr \<le> 64" by simp
    show "0 < ?pr" by simp
  qed
  define B where "B = (push_bit P 1 :: uptr)"
  have u: "unat B = ?pr"
    unfolding B_def using unat_2p [of P] P by (simp add: push_bit_eq_mult)
  have a: "unat (C + B) = unat C + ?pr"
    using unat_add_nowrap [of C B] u c pr by simp
  have "Suc 0 \<le> unat C + ?pr" using c(1) by linarith
  then have "1 \<le> C + B" using a by (simp add: word_le_nat_alt)
  then have "unat (C + B - 1) = unat (C + B) - unat (1 :: uptr)"
    by (rule unat_sub)
  then have s: "unat (C + B - 1) = unat C + ?pr - 1" using a by simp
  have d: "unat ((C + B - 1) div B) = (unat C + ?pr - 1) div ?pr"
    by (simp only: unat_div s u)
  have q: "(unat C + ?pr - 1) div ?pr * ?pr \<le> unat C + ?pr - 1" by simp
  have "unat C + ?pr - 1 < 2 ^ 64" using c pr by simp
  with q have "(unat C + ?pr - 1) div ?pr * ?pr < 2 ^ 64" by (rule le_less_trans)
  then have m: "unat ((C + B - 1) div B * B) = (unat C + ?pr - 1) div ?pr * ?pr"
    using unat_mult_nowrap [of "(C + B - 1) div B" B] d u by simp
  have "unat (drop_bit P (roundUp C B)) = drop_bit P (unat (roundUp C B))"
    by (rule unat_drop_bit_eq)
  also have "\<dots> = unat (roundUp C B) div ?pr" by (rule drop_bit_eq_div)
  also have "\<dots> = (unat C + ?pr - 1) div ?pr * ?pr div ?pr"
    unfolding roundUp_def m ..
  also have "\<dots> = (unat C + ?pr - 1) div ?pr" by simp
  finally show ?thesis unfolding B_def .
qed

lemma words_per_region_bounds:
  assumes "0 < (c :: nat)" and "0 < pr"
  shows "c \<le> (c + pr - 1) div pr * pr" and "(c + pr - 1) div pr \<le> c"
proof -
  have "c + pr - 1 < ((c + pr - 1) div pr + 1) * pr"
    using assms(2) by (metis Suc_eq_plus1 dividend_less_div_times mult.commute add.commute mult_Suc)
  then show "c \<le> (c + pr - 1) div pr * pr" using assms by simp
  have "c + pr - 1 \<le> c * pr"
  proof -
    obtain c' where c': "c = Suc c'" using assms(1) by (cases c) auto
    obtain p' where p': "pr = Suc p'" using assms(2) by (cases pr) auto
    show ?thesis unfolding c' p' by simp
  qed
  then have "(c + pr - 1) div pr \<le> c * pr div pr" by (rule div_le_mono)
  then show "(c + pr - 1) div pr \<le> c" using assms(2) by simp
qed

lemma reset_fields:
  "Regions (fst (reset pf N C M m)) = N"
  "NumCounters (fst (reset pf N C M m)) = C"
  "CounterSizeBitsLog (fst (reset pf N C M m))
     = getLog2 (roundUpPowerOfTwo (getMostSignificantSetBitIndex M + 1))"
  "CounterMask (fst (reset pf N C M m))
     = drop_bit (unat (64 - roundUpPowerOfTwo (getMostSignificantSetBitIndex M + 1))) (NOT 0)"
  "PackingRatioLog (fst (reset pf N C M m))
     = getLog2 (drop_bit (unat (CounterSizeBitsLog (fst (reset pf N C M m)))) 64)"
  "BitOffsetMask (fst (reset pf N C M m))
     = drop_bit (unat (CounterSizeBitsLog (fst (reset pf N C M m)))) 64 - 1"
  "SizePerRegion (fst (reset pf N C M m))
     = drop_bit (unat (PackingRatioLog (fst (reset pf N C M m))))
         (roundUp C (push_bit (unat (PackingRatioLog (fst (reset pf N C M m)))) 1))"
  "isAllocated (fst (reset pf N C M m)) \<Longrightarrow> Words (fst (reset pf N C M m)) = (\<lambda>_. 0)"
  by (auto simp: reset_def Let_def isAllocated_def split: if_splits)

lemma reset_geometry:
  assumes M: "0 < M" and C: "0 < C" and N: "0 < N"
    and fits: "unat N * unat C < 2 ^ 61"
  shows "wfMap (fst (reset pf N C M m))" and "M \<le> CounterMask (fst (reset pf N C M m))"
proof -
  let ?m = "fst (reset pf N C M m)"
  let ?n = "bit_length (unat M)"
  have uM: "0 < unat M" using M by (simp add: word_less_nat_alt)
  have n1: "1 \<le> ?n" using bit_length_pos [OF uM] by simp
  have n64: "?n \<le> 64" by (rule bit_length_bound [OF unat_lt_2p64])
  have x: "getMostSignificantSetBitIndex M + 1 = of_nat ?n"
  proof -
    have "of_nat (?n - 1) + (1 :: uptr) = of_nat (Suc (?n - 1))" by simp
    then show ?thesis using n1 by (simp add: getMostSignificantSetBitIndex_def)
  qed
  have "?n \<in> set [1 ..< 65]" using n1 n64 by simp
  then have cs: "roundUpPowerOfTwo (of_nat ?n) \<in> {1, 2, 4, 8, 16, 32, 64 :: uptr}
      \<and> of_nat ?n \<le> roundUpPowerOfTwo (of_nat ?n)"
    using counter_size_cases unfolding list_all_iff by blast
  then obtain L where L: "L \<le> 6" and csb: "roundUpPowerOfTwo (of_nat ?n) = 2 ^ L"
    using counter_geometry by blast
  note g = counter_geometry_at [OF L]
  have l: "unat (CounterSizeBitsLog ?m) = L"
    unfolding reset_fields x csb using g by simp
  have cm: "CounterMask ?m = mask (2 ^ L)"
    unfolding reset_fields x csb using g by simp
  have p: "unat (PackingRatioLog ?m) = 6 - L"
    unfolding reset_fields(5) l using g by simp
  have b: "BitOffsetMask ?m = mask (6 - L)"
    unfolding reset_fields(6) l using g by simp
  have uC: "0 < unat C" using C by (simp add: word_less_nat_alt)
  have uN: "0 < unat N" using N by (simp add: word_less_nat_alt)
  have "unat C \<le> unat N * unat C" using uN by simp
  then have c61: "unat C < 2 ^ 61" using fits by (rule le_less_trans)
  have spr: "unat (SizePerRegion ?m) = (unat C + 2 ^ (6 - L) - 1) div 2 ^ (6 - L)"
    unfolding reset_fields(7) p by (rule words_per_region [OF _ uC c61]) simp
  note wb = words_per_region_bounds [OF uC, of "2 ^ (6 - L)"]
  have "unat N * unat (SizePerRegion ?m) \<le> unat N * unat C"
    unfolding spr using wb(2) by simp
  then have "unat N * unat (SizePerRegion ?m) < 2 ^ 61" using fits by (rule le_less_trans)
  then have tot: "unat N * unat (SizePerRegion ?m) < 2 ^ 64" by simp
  show "wfMap ?m"
    unfolding wfMap_def reset_fields(1,2)
    using l cm p b spr wb(1) tot L by simp
  have "unat (of_nat ?n :: uptr) = ?n" using n64 by (intro unat_of_nat_uptr) simp
  moreover have "unat (2 ^ L :: uptr) = 2 ^ L" using L by (intro unat_2p) simp
  ultimately have nL: "?n \<le> 2 ^ L" using cs csb by (simp add: word_le_nat_alt)
  have "unat M < 2 ^ ?n" by (rule bit_length_covers)
  also have "\<dots> \<le> 2 ^ (2 ^ L)" using nL by (intro power_increasing) auto
  finally have "unat M < 2 ^ (2 ^ L)" .
  moreover have "(2 :: nat) ^ L \<le> 64"
  proof -
    have "(2 :: nat) ^ L \<le> 2 ^ 6" using L by (intro power_increasing) auto
    then show ?thesis by simp
  qed
  ultimately have "unat M \<le> unat (mask (2 ^ L) :: uptr)"
    using unat_mask_uptr [of "2 ^ L"] by simp
  then show "M \<le> CounterMask ?m" unfolding cm by (simp add: word_le_nat_alt)
qed

lemma get_zero: "Words m = (\<lambda>_. 0) \<Longrightarrow> get m Region I = 0"
  by (simp add: get_def)

subsection \<open>Runs of calls against the unpacked counters\<close>

lemma range_call_fields [simp]:
  "wfMap (incRange m Region From To) = wfMap m"
  "validIndex (incRange m Region From To) R J = validIndex m R J"
  "CounterMask (incRange m Region From To) = CounterMask m"
  "NumCounters (incRange m Region From To) = NumCounters m"
  "wfMap (setAsAllCountedRange m Region From To) = wfMap m"
  "validIndex (setAsAllCountedRange m Region From To) R J = validIndex m R J"
  "CounterMask (setAsAllCountedRange m Region From To) = CounterMask m"
  "NumCounters (setAsAllCountedRange m Region From To) = NumCounters m"
  by (simp_all add: incRange_def setAsAllCountedRange_def)

lemma map_step_wf [simp]: "wfMap (map_step c m) = wfMap m"
  by (cases c) (simp_all add: incCounter_incN)

lemma map_step_valid [simp]: "validIndex (map_step c m) R J = validIndex m R J"
  by (cases c) (simp_all add: incCounter_incN)

lemma map_step_mask [simp]: "CounterMask (map_step c m) = CounterMask m"
  by (cases c) (simp_all add: incCounter_incN)

lemma map_step_count [simp]: "NumCounters (map_step c m) = NumCounters m"
  by (cases c) (simp_all add: incCounter_incN)

lemma map_run_wf [simp]: "wfMap (map_run cs m) = wfMap m"
  by (induction cs arbitrary: m) simp_all

lemma map_run_valid [simp]: "validIndex (map_run cs m) R J = validIndex m R J"
  by (induction cs arbitrary: m) simp_all

lemma map_run_mask [simp]: "CounterMask (map_run cs m) = CounterMask m"
  by (induction cs arbitrary: m) simp_all

lemma map_run_count [simp]: "NumCounters (map_run cs m) = NumCounters m"
  by (induction cs arbitrary: m) simp_all

lemma unat_inc_below: "(x :: uptr) < y \<Longrightarrow> unat (x + 1) = unat x + 1"
  using uptr_suc [of x y] by simp

lemma map_step_refines:
  assumes wf: "wfMap m" and lg: "legal c m"
    and f: "\<forall>R J. validIndex m R J \<longrightarrow> unat (get m R J) = f (R, J)"
    and v: "validIndex m R J"
  shows "unat (get (map_step c m) R J) = spec_step (NumCounters m) (CounterMask m) c f (R, J)"
proof (cases c)
  case (Inc Region I)
  have vi: "validIndex m Region I" and lt: "get m Region I < CounterMask m"
    using lg Inc by simp_all
  show ?thesis
    using get_incCounter [OF wf vi v lt] f v vi unat_inc_below [OF lt] Inc by auto
next
  case (IncN Region I N)
  have vi: "validIndex m Region I" and le: "get m Region I \<le> CounterMask m - N"
    and n: "N \<le> CounterMask m"
    using lg IncN by simp_all
  have "unat (CounterMask m - N) = unat (CounterMask m) - unat N" using n by (rule unat_sub)
  then have nov: "unat (get m Region I) + unat N \<le> unat (CounterMask m)"
    using le n by (simp add: word_le_nat_alt)
  then have "unat (get m Region I) + unat N < 2 ^ 64"
    using unat_lt_2p64 [of "CounterMask m"] by linarith
  then have u: "unat (get m Region I + N) = unat (get m Region I) + unat N"
    by (rule unat_add_nowrap)
  show ?thesis
    using get_incN [OF wf vi v nov] f v vi u IncN by auto
next
  case (IncRange Region From To)
  let ?Top = "MinU (To + 1) (NumCounters m)"
  have r: "Region < Regions m"
    and pre: "\<forall>I. From \<le> I \<and> I < ?Top \<longrightarrow> get m Region I < CounterMask m"
    using lg IncRange by (simp_all add: rangeIndices_all)
  have g: "get (incRange m Region From To) R J
             = (if R = Region \<and> From \<le> J \<and> J < ?Top then get m R J + 1 else get m R J)"
    unfolding incRange_def by (rule get_incRange_loop [OF wf r MinU_le pre v])
  show ?thesis
  proof (cases "R = Region \<and> From \<le> J \<and> J < ?Top")
    case True
    then have "get m R J < CounterMask m" using pre by auto
    then have "unat (get m R J + 1) = unat (get m R J) + 1" by (rule unat_inc_below)
    then show ?thesis using g True f v IncRange by simp
  next
    case False
    then show ?thesis using g f v IncRange by auto
  qed
next
  case (SetAsAllCounted Region I)
  have vi: "validIndex m Region I" using lg SetAsAllCounted by simp
  show ?thesis
    using get_setAsAllCounted [OF wf vi v] f v SetAsAllCounted by auto
next
  case (SetAsAllCountedRange Region From To)
  have r: "Region < Regions m" using lg SetAsAllCountedRange by simp
  have g: "get (setAsAllCountedRange m Region From To) R J
             = (if R = Region \<and> From \<le> J \<and> J < MinU (To + 1) (NumCounters m)
                then CounterMask m else get m R J)"
    unfolding setAsAllCountedRange_def by (rule get_setRange_loop [OF wf r MinU_le v])
  show ?thesis using g f v SetAsAllCountedRange by auto
qed

lemma map_run_refines:
  assumes "wfMap m" and "legal_run cs m"
    and "\<forall>R J. validIndex m R J \<longrightarrow> unat (get m R J) = f (R, J)"
    and "validIndex m R J"
  shows "unat (get (map_run cs m) R J) = spec_run (NumCounters m) (CounterMask m) cs f (R, J)"
  using assms
proof (induction cs arbitrary: m f)
  case Nil
  then show ?case by simp
next
  case (Cons c cs)
  have lg: "legal c m" and lr: "legal_run cs (map_step c m)" using Cons.prems(2) by simp_all
  have f': "\<forall>R J. validIndex (map_step c m) R J \<longrightarrow>
      unat (get (map_step c m) R J) = spec_step (NumCounters m) (CounterMask m) c f (R, J)"
    using map_step_refines [OF Cons.prems(1) lg Cons.prems(3)] by simp
  have "unat (get (map_run cs (map_step c m)) R J)
          = spec_run (NumCounters (map_step c m)) (CounterMask (map_step c m)) cs
              (spec_step (NumCounters m) (CounterMask m) c f) (R, J)"
    by (rule Cons.IH [OF _ lr f']) (simp_all add: Cons.prems)
  then show ?case by simp
qed

lemma legal_run_take: "legal_run cs m \<Longrightarrow> legal_run (take k cs) m"
proof (induction cs arbitrary: m k)
  case Nil
  then show ?case by simp
next
  case (Cons c cs)
  then show ?case by (cases k) simp_all
qed

section \<open>RegionPageMap: the claims\<close>

text \<open>
  The example map has two bits per counter and \<open>CounterMask = 3\<close>, in the static
  buffer.
\<close>

lemma exampleMap_fields:
  "Regions exampleMap = 1" "NumCounters exampleMap = 4" "CounterMask exampleMap = 3"
  "isAllocated exampleMap"
  by (code_simp+)

lemma exampleMap_wf: "wfMap exampleMap"
  unfolding exampleMap_def by (rule reset_geometry) simp_all

lemma exampleMap_zero: "get exampleMap Region I = 0"
proof -
  have "Words exampleMap = (\<lambda>_. 0)"
    using exampleMap_fields(4) unfolding exampleMap_def by (rule reset_fields(8))
  then show ?thesis by (rule get_zero)
qed

lemma exampleMap_valid: "validIndex exampleMap Region I = (Region = 0 \<and> I < 4)"
  by (simp add: validIndex_def exampleMap_fields word_less_1)

text \<open>
  C5. For a valid \<open>(Region, I)\<close> and any \<open>MaxCount\<close>, \<open>updateAsAllCountedIf\<close> returns
  true and changes nothing if the counter is \<open>CounterMask\<close>; else, if the counter is
  \<open>MaxCount\<close>, it returns true, the counter reads \<open>CounterMask\<close> afterwards and every
  other counter is unchanged; else it returns false and changes nothing. So it returns
  true exactly when the counter is \<open>CounterMask\<close> or \<open>MaxCount\<close>, and exactly when the
  counter is all-counted afterwards: the two readings agree.
\<close>

theorem updateAsAllCountedIf_readings:
  assumes wf: "wfMap m" and v: "validIndex m Region I"
  shows "(get m Region I = CounterMask m \<longrightarrow>
            updateAsAllCountedIf m Region I MaxCount = (True, m))
       \<and> (get m Region I \<noteq> CounterMask m \<and> get m Region I = MaxCount \<longrightarrow>
            fst (updateAsAllCountedIf m Region I MaxCount)
            \<and> get (snd (updateAsAllCountedIf m Region I MaxCount)) Region I = CounterMask m
            \<and> (\<forall>R J. validIndex m R J \<and> (R, J) \<noteq> (Region, I) \<longrightarrow>
                  get (snd (updateAsAllCountedIf m Region I MaxCount)) R J = get m R J))
       \<and> (get m Region I \<noteq> CounterMask m \<and> get m Region I \<noteq> MaxCount \<longrightarrow>
            updateAsAllCountedIf m Region I MaxCount = (False, m))
       \<and> fst (updateAsAllCountedIf m Region I MaxCount)
            = (get m Region I = CounterMask m \<or> get m Region I = MaxCount)
       \<and> fst (updateAsAllCountedIf m Region I MaxCount)
            = isAllCounted (snd (updateAsAllCountedIf m Region I MaxCount)) Region I"
proof -
  have s: "\<And>R J. validIndex m R J \<Longrightarrow>
      get (setAsAllCounted m Region I) R J
        = (if R = Region \<and> J = I then CounterMask m else get m R J)"
    by (rule get_setAsAllCounted [OF wf v])
  show ?thesis
    using s [OF v] s by (auto simp: updateAsAllCountedIf_def Let_def isAllCounted_def)
qed

theorem updateAsAllCountedIf_readings_witness:
  "fst (updateAsAllCountedIf (incN exampleMap 0 1 2) 0 1 2)
   \<and> get (snd (updateAsAllCountedIf (incN exampleMap 0 1 2) 0 1 2)) 0 1 = 3
   \<and> get (snd (updateAsAllCountedIf (incN exampleMap 0 1 2) 0 1 2)) 0 2 = 0"
proof -
  let ?m = "incN exampleMap 0 1 2"
  have wf: "wfMap ?m" by (simp add: exampleMap_wf)
  have v: "validIndex ?m 0 1" and v2: "validIndex ?m 0 2"
    by (simp_all add: exampleMap_valid)
  have nov: "unat (get exampleMap 0 1) + unat (2 :: uptr) \<le> unat (CounterMask exampleMap)"
    by (simp add: exampleMap_zero exampleMap_fields)
  have g: "get ?m 0 1 = 2" "get ?m 0 2 = 0"
    using get_incN [OF exampleMap_wf _ _ nov, of 0 1] get_incN [OF exampleMap_wf _ _ nov, of 0 2]
    by (simp_all add: exampleMap_valid exampleMap_zero)
  have c: "CounterMask ?m = 3" by (simp add: exampleMap_fields)
  show ?thesis
    using updateAsAllCountedIf_readings [OF wf v, of 2] v2 g c by auto
qed

text \<open>
  C6. On a well-formed map, \<open>incRange(Region, From, To)\<close> with \<open>From \<le> To\<close>, a valid
  region and every counter it visits below \<open>CounterMask\<close> (the precondition of \<open>inc\<close>)
  adds one to exactly the counters of \<open>Region\<close> with index from \<open>From\<close> below
  \<open>min(To + 1, CountersPerRegion)\<close> and leaves every other counter as it was, and
  \<open>setAsAllCountedRange(Region, From, To)\<close> sets exactly those counters to
  \<open>CounterMask\<close>. The bound is inclusive of \<open>To\<close> and clamped: unless \<open>To + 1\<close> wraps
  to 0, an index is below it exactly when it is at most \<open>To\<close> and below
  \<open>CountersPerRegion\<close>.
\<close>

theorem range_calls_exact:
  assumes wf: "wfMap m"
  shows "(legal (IncRange Region From To) m \<longrightarrow>
           (\<forall>R J. validIndex m R J \<longrightarrow>
              get (incRange m Region From To) R J
                = (if R = Region \<and> From \<le> J \<and> J < MinU (To + 1) (NumCounters m)
                   then get m R J + 1 else get m R J)
              \<and> unat (get (incRange m Region From To) R J)
                = (if R = Region \<and> From \<le> J \<and> J < MinU (To + 1) (NumCounters m)
                   then unat (get m R J) + 1 else unat (get m R J))))
       \<and> (legal (SetAsAllCountedRange Region From To) m \<longrightarrow>
           (\<forall>R J. validIndex m R J \<longrightarrow>
              get (setAsAllCountedRange m Region From To) R J
                = (if R = Region \<and> From \<le> J \<and> J < MinU (To + 1) (NumCounters m)
                   then CounterMask m else get m R J)))
       \<and> (To + 1 \<noteq> 0 \<longrightarrow>
           (\<forall>J. (J < MinU (To + 1) (NumCounters m)) = (J \<le> To \<and> J < NumCounters m)))"
proof (intro conjI impI allI)
  fix R J
  assume lg: "legal (IncRange Region From To) m" and v: "validIndex m R J"
  let ?Top = "MinU (To + 1) (NumCounters m)"
  have r: "Region < Regions m"
    and pre: "\<forall>I. From \<le> I \<and> I < ?Top \<longrightarrow> get m Region I < CounterMask m"
    using lg by (simp_all add: rangeIndices_all)
  show g: "get (incRange m Region From To) R J
         = (if R = Region \<and> From \<le> J \<and> J < ?Top then get m R J + 1 else get m R J)"
    unfolding incRange_def by (rule get_incRange_loop [OF wf r MinU_le pre v])
  show "unat (get (incRange m Region From To) R J)
         = (if R = Region \<and> From \<le> J \<and> J < ?Top then unat (get m R J) + 1
            else unat (get m R J))"
  proof (cases "R = Region \<and> From \<le> J \<and> J < ?Top")
    case True
    then have "get m R J < CounterMask m" using pre by auto
    then have "unat (get m R J + 1) = unat (get m R J) + 1" by (rule unat_inc_below)
    then show ?thesis using g True by simp
  next
    case False
    then show ?thesis using g by auto
  qed
next
  fix R J
  assume lg: "legal (SetAsAllCountedRange Region From To) m" and v: "validIndex m R J"
  have r: "Region < Regions m" using lg by simp
  show "get (setAsAllCountedRange m Region From To) R J
         = (if R = Region \<and> From \<le> J \<and> J < MinU (To + 1) (NumCounters m)
            then CounterMask m else get m R J)"
    unfolding setAsAllCountedRange_def by (rule get_setRange_loop [OF wf r MinU_le v])
next
  fix J
  assume nz: "To + 1 \<noteq> 0"
  have "unat (To + 1) = Suc (unat To)" using nz unatSuc [of To] by (simp add: add.commute)
  then have "(J < To + 1) = (J \<le> To)"
    by (simp add: word_less_nat_alt word_le_nat_alt less_Suc_eq_le)
  then show "(J < MinU (To + 1) (NumCounters m)) = (J \<le> To \<and> J < NumCounters m)"
    by (auto simp: MinU_def)
qed

theorem range_calls_exact_witness:
  "get (incRange (incN exampleMap 0 1 2) 0 1 9) 0 0 = 0
   \<and> get (incRange (incN exampleMap 0 1 2) 0 1 9) 0 1 = 3
   \<and> get (incRange (incN exampleMap 0 1 2) 0 1 9) 0 3 = 1
   \<and> get (setAsAllCountedRange (incN exampleMap 0 1 2) 0 2 2) 0 1 = 2
   \<and> get (setAsAllCountedRange (incN exampleMap 0 1 2) 0 2 2) 0 2 = 3"
proof -
  let ?m = "incN exampleMap 0 1 2"
  have wf: "wfMap ?m" by (simp add: exampleMap_wf)
  have nov: "unat (get exampleMap 0 1) + unat (2 :: uptr) \<le> unat (CounterMask exampleMap)"
    by (simp add: exampleMap_zero exampleMap_fields)
  have g: "\<And>J. J < 4 \<Longrightarrow> get ?m 0 J = (if J = 1 then 2 else 0)"
    using get_incN [OF exampleMap_wf _ _ nov, where Region' = 0]
    by (simp add: exampleMap_valid exampleMap_zero)
  have top: "MinU 10 4 = (4 :: uptr)" "MinU 3 4 = (3 :: uptr)"
    by (simp_all add: MinU_def)
  have idx: "rangeIndices 1 4 = [1, 2, 3 :: uptr]"
    by (simp add: rangeIndices_def upt_rec)
  have l1: "legal (IncRange 0 1 9) ?m"
    by (simp add: top idx g exampleMap_fields)
  have l2: "legal (SetAsAllCountedRange 0 2 2) ?m"
    by (simp add: exampleMap_fields)
  have v: "validIndex ?m 0 0" "validIndex ?m 0 1" "validIndex ?m 0 2" "validIndex ?m 0 3"
    by (simp_all add: exampleMap_valid)
  have A: "\<And>R J. validIndex ?m R J \<Longrightarrow>
      get (incRange ?m 0 1 9) R J
        = (if R = 0 \<and> 1 \<le> J \<and> J < MinU (9 + 1) (NumCounters ?m)
           then get ?m R J + 1 else get ?m R J)"
    using range_calls_exact [OF wf, of 0 1 9] l1 by blast
  have B: "\<And>R J. validIndex ?m R J \<Longrightarrow>
      get (setAsAllCountedRange ?m 0 2 2) R J
        = (if R = 0 \<and> 2 \<le> J \<and> J < MinU (2 + 1) (NumCounters ?m)
           then CounterMask ?m else get ?m R J)"
    using range_calls_exact [OF wf, of 0 2 2] l2 by blast
  have n21: "\<not> (2 :: uptr) \<le> 1" by (simp add: word_le_nat_alt)
  show ?thesis
    using A [OF v(1)] A [OF v(2)] A [OF v(4)] B [OF v(2)] B [OF v(3)]
    by (simp add: top g exampleMap_fields n21)
qed

text \<open>
  C9. Take a map constructed with \<open>NumberOfRegions > 0\<close>, \<open>CountersPerRegion > 0\<close> and
  \<open>MaxValue > 0\<close> (its buffer allocated, and fewer than \<open>2 ^ 61\<close> counters in all, so
  that \<open>BufferSize\<close> does not wrap), and any sequence of \<open>inc\<close>, \<open>incN\<close>, \<open>incRange\<close>,
  \<open>setAsAllCounted\<close> and \<open>setAsAllCountedRange\<close> calls each meeting its precondition.
  After every prefix of the sequence every valid counter is at most \<open>CounterMask\<close>, and it
  reads exactly what the same calls give on unpacked, unbounded counters: no update
  carries into a neighbouring packed counter.
\<close>

theorem counters_stay_bounded:
  assumes N: "0 < N" and C: "0 < C" and M: "0 < M"
    and fits: "unat N * unat C < 2 ^ 61"
    and al: "isAllocated (fst (reset pf N C M m))"
    and lg: "legal_run cs (fst (reset pf N C M m))"
    and v: "validIndex (fst (reset pf N C M m)) Region I"
  shows "get (map_run (take k cs) (fst (reset pf N C M m))) Region I
           \<le> CounterMask (fst (reset pf N C M m))
       \<and> unat (get (map_run (take k cs) (fst (reset pf N C M m))) Region I)
           = spec_run C (CounterMask (fst (reset pf N C M m))) (take k cs) (\<lambda>_. 0) (Region, I)
       \<and> spec_run C (CounterMask (fst (reset pf N C M m))) (take k cs) (\<lambda>_. 0) (Region, I)
           \<le> unat (CounterMask (fst (reset pf N C M m)))"
proof -
  let ?m = "fst (reset pf N C M m)"
  have wf: "wfMap ?m" by (rule reset_geometry(1) [OF M C N fits])
  have z: "\<forall>R J. validIndex ?m R J \<longrightarrow> unat (get ?m R J) = (\<lambda>_. 0) (R, J)"
    using get_zero [OF reset_fields(8) [OF al]] by simp
  have lk: "legal_run (take k cs) ?m" by (rule legal_run_take [OF lg])
  have e: "unat (get (map_run (take k cs) ?m) Region I)
             = spec_run (NumCounters ?m) (CounterMask ?m) (take k cs) (\<lambda>_. 0) (Region, I)"
    by (rule map_run_refines [OF wf lk z v])
  have b: "get (map_run (take k cs) ?m) Region I \<le> CounterMask ?m"
    using get_le_mask [of "map_run (take k cs) ?m" Region I] by simp
  show ?thesis
    using e b by (simp add: reset_fields(2) word_le_nat_alt)
qed

theorem counters_stay_bounded_witness:
  "unat (get (map_run [Inc 0 1, IncN 0 2 2, IncRange 0 0 1, SetAsAllCounted 0 3] exampleMap) 0 0) = 1
   \<and> unat (get (map_run [Inc 0 1, IncN 0 2 2, IncRange 0 0 1, SetAsAllCounted 0 3] exampleMap) 0 1) = 2
   \<and> unat (get (map_run [Inc 0 1, IncN 0 2 2, IncRange 0 0 1, SetAsAllCounted 0 3] exampleMap) 0 2) = 2
   \<and> unat (get (map_run [Inc 0 1, IncN 0 2 2, IncRange 0 0 1, SetAsAllCounted 0 3] exampleMap) 0 3) = 3
   \<and> get (map_run [Inc 0 1, IncN 0 2 2, IncRange 0 0 1, SetAsAllCounted 0 3] exampleMap) 0 2
        \<le> CounterMask exampleMap"
proof -
  let ?pf = "\<lparr>PageSizeCached = 4096, tryLock = True, mapSucceeds = (\<lambda>_. True)\<rparr>"
  let ?cs = "[Inc 0 1, IncN 0 2 2, IncRange 0 0 1, SetAsAllCounted 0 3]"
  have lg: "legal_run ?cs exampleMap" by code_simp
  have t: "take 4 ?cs = ?cs" by simp
  have top: "MinU 2 4 = (2 :: uptr)" by (simp add: MinU_def)
  have n: "\<not> (2 :: uptr) \<le> 1" "\<not> (3 :: uptr) \<le> 1" "\<not> (2 :: uptr) < 2" "\<not> (3 :: uptr) < 2"
    by (simp_all add: word_le_nat_alt word_less_nat_alt)
  note w = counters_stay_bounded [of 1 4 3 ?pf RegionPageMap_new ?cs _ _ 4,
      folded exampleMap_def, unfolded t]
  have v: "validIndex exampleMap 0 0" "validIndex exampleMap 0 1" "validIndex exampleMap 0 2"
    "validIndex exampleMap 0 3"
    by (simp_all add: exampleMap_valid)
  show ?thesis
    using w [OF _ _ _ _ exampleMap_fields(4) lg v(1)] w [OF _ _ _ _ exampleMap_fields(4) lg v(2)]
      w [OF _ _ _ _ exampleMap_fields(4) lg v(3)] w [OF _ _ _ _ exampleMap_fields(4) lg v(4)]
    by (simp add: exampleMap_fields top n)
qed

section \<open>The release scan\<close>

subsection \<open>The loops as lists\<close>

lemma tracker_run_append: "tracker_run (xs @ ys) t = tracker_run ys (tracker_run xs t)"
  by (induction xs arbitrary: t) simp_all

lemma rangeIndices_step:
  "I < Top \<Longrightarrow> rangeIndices I Top = I # rangeIndices (I + 1) Top"
  "\<not> I < Top \<Longrightarrow> rangeIndices I Top = []"
proof -
  assume lt: "I < Top"
  then have "unat I < unat Top" by (simp add: word_less_nat_alt)
  then have "[unat I ..< unat Top] = unat I # [Suc (unat I) ..< unat Top]"
    by (rule upt_conv_Cons)
  then show "rangeIndices I Top = I # rangeIndices (I + 1) Top"
    unfolding rangeIndices_def using uptr_suc [OF lt] by simp
next
  assume "\<not> I < Top"
  then show "rangeIndices I Top = []"
    by (simp add: rangeIndices_def word_less_nat_alt)
qed

lemma scanPagesSame_list:
  "scanPagesSame I PagesCount0 FullMax J (pm, t) =
     (fst (scanPagesList I (map (\<lambda>J. (J, FullMax)) (rangeIndices J PagesCount0)) pm),
      tracker_run
        (map ProcessNextPage
           (snd (scanPagesList I (map (\<lambda>J. (J, FullMax)) (rangeIndices J PagesCount0)) pm)))
        t)"
proof (induction I PagesCount0 FullMax J "(pm, t)" arbitrary: pm t rule: scanPagesSame.induct)
  case (1 I PagesCount0 FullMax J pm t)
  show ?case
  proof (cases "J < PagesCount0")
    case False
    then show ?thesis
      by (subst scanPagesSame.simps) (simp add: rangeIndices_step(2))
  next
    case True
    obtain b pm1 where u: "updateAsAllCountedIf pm I J FullMax = (b, pm1)"
      by (cases "updateAsAllCountedIf pm I J FullMax")
    have ih: "scanPagesSame I PagesCount0 FullMax (J + 1) (pm1, processNextPage b t) =
     (fst (scanPagesList I (map (\<lambda>J. (J, FullMax)) (rangeIndices (J + 1) PagesCount0)) pm1),
      tracker_run
        (map ProcessNextPage
           (snd (scanPagesList I (map (\<lambda>J. (J, FullMax)) (rangeIndices (J + 1) PagesCount0)) pm1)))
        (processNextPage b t))"
      by (rule "1.hyps" [OF True u [symmetric] refl])
    show ?thesis
      by (subst scanPagesSame.simps)
         (simp add: True rangeIndices_step(1) [OF True] u ih split: prod.splits)
  qed
qed

lemma scanPagesSlow_list:
  "scanPagesSlow I PagesCount0 PgSize BlkSize Pn Pnc J (Prev, Cur, pm, t) =
     (fst (scanPagesList I
             (slowExpects PgSize BlkSize Pn Pnc Prev Cur (rangeIndices J PagesCount0)) pm),
      tracker_run
        (map ProcessNextPage
           (snd (scanPagesList I
                   (slowExpects PgSize BlkSize Pn Pnc Prev Cur (rangeIndices J PagesCount0)) pm)))
        t)"
proof (induction I PagesCount0 PgSize BlkSize Pn Pnc J "(Prev, Cur, pm, t)"
    arbitrary: Prev Cur pm t rule: scanPagesSlow.induct)
  case (1 I PagesCount0 PgSize BlkSize Pn Pnc J Prev Cur pm t)
  show ?case
  proof (cases "J < PagesCount0")
    case False
    then show ?thesis
      by (subst scanPagesSlow.simps) (simp add: rangeIndices_step(2))
  next
    case True
    obtain e Prev1 Cur1 where s: "slowPageStep PgSize BlkSize Pn Pnc Prev Cur = (e, Prev1, Cur1)"
      by (cases "slowPageStep PgSize BlkSize Pn Pnc Prev Cur")
    obtain b pm1 where u: "updateAsAllCountedIf pm I J e = (b, pm1)"
      by (cases "updateAsAllCountedIf pm I J e")
    have ih: "scanPagesSlow I PagesCount0 PgSize BlkSize Pn Pnc (J + 1)
                (Prev1, Cur1, pm1, processNextPage b t) =
     (fst (scanPagesList I
             (slowExpects PgSize BlkSize Pn Pnc Prev1 Cur1 (rangeIndices (J + 1) PagesCount0)) pm1),
      tracker_run
        (map ProcessNextPage
           (snd (scanPagesList I
                   (slowExpects PgSize BlkSize Pn Pnc Prev1 Cur1
                      (rangeIndices (J + 1) PagesCount0)) pm1)))
        (processNextPage b t))"
      by (rule "1.hyps" [OF True s [symmetric] refl refl u [symmetric] refl])
    show ?thesis
      by (subst scanPagesSlow.simps)
         (simp add: True rangeIndices_step(1) [OF True] s u ih split: prod.splits)
  qed
qed

lemma scanRegionsSame_list:
  "scanRegionsSame SkipRegion NumberOfRegions0 PagesCount0 FullMax I (pm, t) =
     (fst (scanRegionsList SkipRegion PagesCount0
             (map (\<lambda>J. (J, FullMax)) (rangeIndices 0 PagesCount0))
             (rangeIndices I NumberOfRegions0) pm),
      tracker_run
        (snd (scanRegionsList SkipRegion PagesCount0
                (map (\<lambda>J. (J, FullMax)) (rangeIndices 0 PagesCount0))
                (rangeIndices I NumberOfRegions0) pm))
        t)"
proof (induction SkipRegion NumberOfRegions0 PagesCount0 FullMax I "(pm, t)"
    arbitrary: pm t rule: scanRegionsSame.induct)
  case (1 SkipRegion NumberOfRegions0 PagesCount0 FullMax I pm t)
  show ?case
  proof (cases "I < NumberOfRegions0")
    case False
    then show ?thesis
      by (subst scanRegionsSame.simps) (simp add: rangeIndices_step(2))
  next
    case True
    show ?thesis
    proof (cases "SkipRegion I")
      case skip: True
      show ?thesis
        by (subst scanRegionsSame.simps)
           (simp add: True skip rangeIndices_step(1) [OF True] "1.hyps"(1) [OF True skip]
              split: prod.splits)
    next
      case noskip: False
      obtain pm1 t1 where p: "scanPagesSame I PagesCount0 FullMax 0 (pm, t) = (pm1, t1)"
        by (cases "scanPagesSame I PagesCount0 FullMax 0 (pm, t)")
      note pl = p [unfolded scanPagesSame_list]
      show ?thesis
        using pl
        by (subst scanRegionsSame.simps)
           (auto simp: True noskip rangeIndices_step(1) [OF True] p
              "1.hyps"(2) [OF True noskip p] tracker_run_append
              split: prod.splits)
    qed
  qed
qed

lemma scanRegionsSlow_list:
  "scanRegionsSlow SkipRegion C Pn Pnc I (pm, t) =
     (fst (scanRegionsList SkipRegion (PagesCount C)
             (slowExpects (PageSize C) (BlockSize C) Pn Pnc
                (if ReleasePageOffset C > 0 then ReleasePageOffset C * PageSize C else 0)
                (if ReleasePageOffset C > 0
                 then roundUpSlow (ReleasePageOffset C * PageSize C) (BlockSize C) else 0)
                (rangeIndices 0 (PagesCount C)))
             (rangeIndices I (NumberOfRegions C)) pm),
      tracker_run
        (snd (scanRegionsList SkipRegion (PagesCount C)
                (slowExpects (PageSize C) (BlockSize C) Pn Pnc
                   (if ReleasePageOffset C > 0 then ReleasePageOffset C * PageSize C else 0)
                   (if ReleasePageOffset C > 0
                    then roundUpSlow (ReleasePageOffset C * PageSize C) (BlockSize C) else 0)
                   (rangeIndices 0 (PagesCount C)))
                (rangeIndices I (NumberOfRegions C)) pm))
        t)"
proof (induction SkipRegion C Pn Pnc I "(pm, t)" arbitrary: pm t rule: scanRegionsSlow.induct)
  case (1 SkipRegion C Pn Pnc I pm t)
  let ?Prev = "if ReleasePageOffset C > 0 then ReleasePageOffset C * PageSize C else 0"
  let ?Cur = "if ReleasePageOffset C > 0
              then roundUpSlow (ReleasePageOffset C * PageSize C) (BlockSize C) else 0"
  show ?case
  proof (cases "I < NumberOfRegions C")
    case False
    then show ?thesis
      by (subst scanRegionsSlow.simps) (simp add: rangeIndices_step(2))
  next
    case True
    show ?thesis
    proof (cases "SkipRegion I")
      case skip: True
      show ?thesis
        by (subst scanRegionsSlow.simps)
           (simp add: True skip rangeIndices_step(1) [OF True] "1.hyps"(1) [OF True skip]
              split: prod.splits)
    next
      case noskip: False
      have pc: "(if ReleasePageOffset C > 0
                 then (ReleasePageOffset C * PageSize C,
                       roundUpSlow (ReleasePageOffset C * PageSize C) (BlockSize C))
                 else (0, 0)) = (?Prev, ?Cur)"
        by simp
      obtain pm1 t1 where p:
        "scanPagesSlow I (PagesCount C) (PageSize C) (BlockSize C) Pn Pnc 0 (?Prev, ?Cur, pm, t)
           = (pm1, t1)"
        by (cases "scanPagesSlow I (PagesCount C) (PageSize C) (BlockSize C) Pn Pnc 0
                     (?Prev, ?Cur, pm, t)")
      note pl = p [unfolded scanPagesSlow_list]
      note ih = "1.hyps"(2) [OF True noskip pc [symmetric] refl p]
      show ?thesis
        using pl
        by (subst scanRegionsSlow.simps)
           (auto simp only: True noskip rangeIndices_step(1) [OF True] pc p ih
              tracker_run_append scanRegionsList.simps Let_def prod.case if_True if_False
              fst_conv snd_conv split: prod.splits)
    qed
  qed
qed

lemma releaseFreeMemoryToOS_list:
  "releaseFreeMemoryToOS pf C Rec SkipRegion =
     (C\<lparr>PageMap := fst (scanRegionsList SkipRegion (PagesCount C) (regionExpects C)
                          (rangeIndices 0 (NumberOfRegions C)) (PageMap C))\<rparr>,
      Recorder (tracker_run
        (snd (scanRegionsList SkipRegion (PagesCount C) (regionExpects C)
                (rangeIndices 0 (NumberOfRegions C)) (PageMap C)) @ [Finish])
        (FreePagesRangeTracker_new pf Rec)))"
proof (cases "SameBlockCountPerPage C")
  case True
  then show ?thesis
    by (simp add: releaseFreeMemoryToOS_def regionExpects_def scanRegionsSame_list
        tracker_run_append Let_def)
next
  case False
  have e: "regionExpects C =
      slowExpects (PageSize C) (BlockSize C)
        (if BlockSize C < PageSize C then PageSize C div BlockSize C else 1)
        ((if BlockSize C < PageSize C then PageSize C div BlockSize C else 1) * BlockSize C)
        (if ReleasePageOffset C > 0 then ReleasePageOffset C * PageSize C else 0)
        (if ReleasePageOffset C > 0
         then roundUpSlow (ReleasePageOffset C * PageSize C) (BlockSize C) else 0)
        (rangeIndices 0 (PagesCount C))"
    using False by (simp add: regionExpects_def Let_def)
  show ?thesis
    unfolding e using False
    by (simp add: releaseFreeMemoryToOS_def scanRegionsSlow_list tracker_run_append Let_def)
qed

end
